theory Spec2Isabelle
  imports Complex_Main "HOL-Library.Log_Nat"
begin

section \<open>The Y-fast-trie predecessor index (YTrie)\<close>

text \<open>
  The index is built once from a sorted vector of unsigned 64-bit keys and then answers
  predecessor queries. Keys are modelled as natural numbers (the inputs of interest are
  below \<open>2 ^ 64\<close>), the signed 64-bit counters of the source (\<open>depth_\<close>, \<open>exponent\<close>,
  \<open>leftRange\<close>, \<open>rightRange\<close>, \<open>lowRange\<close>, \<open>highRange\<close>) as integers, bit strings as
  \<open>string\<close>, and the hash map \<open>lookup_\<close> as a partial map.

  C++ has operations without a defined result. Each of them is a branch of the
  model: a \<open>fault\<close> names what went wrong, and every operation returns \<open>fault + 'a\<close>.
  Only \<open>Thrown_out_of_range\<close> is an exception that reaches the caller; the other
  faults are undefined behaviour, for which the language promises nothing.
\<close>

datatype fault =
    Undefined_back_of_empty
  | Undefined_float_to_int
  | Undefined_division_by_zero
  | Undefined_index
  | Undefined_shift
  | Undefined_null
  | Loops_forever
  | Thrown_out_of_range

fun surfaced :: "fault \<Rightarrow> bool" where
  "surfaced Thrown_out_of_range = True"
| "surfaced _ = False"

definition andThen :: "fault + 'a \<Rightarrow> ('a \<Rightarrow> fault + 'b) \<Rightarrow> fault + 'b" where
  "andThen m f = (case m of Inl e \<Rightarrow> Inl e | Inr x \<Rightarrow> f x)"

text \<open>\<open>v[i]\<close> on a vector, with the index converted to \<open>size_t\<close>: a negative index
  becomes a huge one, so it is out of range as well.\<close>

definition vec_at :: "'a list \<Rightarrow> int \<Rightarrow> fault + 'a" where
  "vec_at v i = (if 0 \<le> i \<and> i < int (length v) then Inr (v ! nat i) else Inl Undefined_index)"

definition vec_back :: "'a list \<Rightarrow> fault + 'a" where
  "vec_back v = (if v = [] then Inl Undefined_back_of_empty else Inr (last v))"

subsection \<open>Depth\<close>

text \<open>
  \<open>calcDepth\<close> passes the last key, a \<open>uint64_t\<close>, to \<open>std::log2\<close>, which converts it to
  \<open>double\<close> first. The conversion rounds to the nearest number with a 53-bit significand,
  ties to even; \<open>u64_to_double\<close> is that rounding, exactly. The logarithm is computed in
  \<open>double\<close> as well: \<open>std_log2\<close> is the real logarithm rounded to the nearest number with a
  53-bit significand, ties to even (\<open>to_nearest_double\<close>; the exponent range of \<open>double\<close>
  plays no role for the logarithms of 64-bit keys, which are 0 or lie between 1 and 64).
  So a key just below a large power of two can have a logarithm that rounds up to the
  next integer. For the key 0 the logarithm is \<open>-inf\<close>, and its conversion to \<open>int64_t\<close> is
  undefined.
\<close>

function mantissa_shift :: "nat \<Rightarrow> nat" where
  "mantissa_shift v = (if v < 2 ^ 53 then 0 else Suc (mantissa_shift (v div 2)))"
  by pat_completeness auto
termination
  by (relation "measure (\<lambda>v. v)") auto

definition u64_to_double :: "nat \<Rightarrow> nat" where
  "u64_to_double v =
     (let e = mantissa_shift v; q = v div 2 ^ e; r = v mod 2 ^ e
      in if e = 0 then v
         else if 2 ^ (e - 1) < r \<or> (r = 2 ^ (e - 1) \<and> odd q) then (q + 1) * 2 ^ e
         else q * 2 ^ e)"

definition round_even :: "real \<Rightarrow> int" where
  "round_even z =
     (let f = \<lfloor>z\<rfloor>
      in if z - of_int f < 1 / 2 then f
         else if 1 / 2 < z - of_int f then f + 1
         else if even f then f else f + 1)"

definition to_nearest_double :: "real \<Rightarrow> real" where
  "to_nearest_double y =
     (if y = 0 then 0
      else (let e = \<lfloor>log 2 \<bar>y\<bar>\<rfloor>
            in of_int (round_even (y * 2 powr of_int (52 - e))) * 2 powr of_int (e - 52)))"

definition std_log2 :: "nat \<Rightarrow> real" where
  "std_log2 x = to_nearest_double (log 2 (real x))"

definition calcDepth :: "nat list \<Rightarrow> fault + int" where
  "calcDepth values =
     andThen (vec_back values) (\<lambda>m.
       if u64_to_double m = 0 then Inl Undefined_float_to_int
       else Inr \<lfloor>std_log2 (u64_to_double m)\<rfloor>)"

subsection \<open>Representatives and blocks\<close>

text \<open>
  The class \<open>TrieNode\<close> plays two roles. A node made by the three-argument
  constructor is a representative: it has a value, \<open>previous\<close> and \<open>next\<close> links and a
  block. Every such node is pushed onto \<open>representatives_\<close> when it is made and stays there,
  so a pointer to it is modelled by its position in that vector (\<open>None\<close> is \<open>nullptr\<close>).
  A node made by the two-argument constructor is an inner node holding the pointers
  \<open>leftMax\<close> and \<open>rightMin\<close>; it is never changed and only \<open>lookup_\<close> refers to it, so
  \<open>lookup_\<close> holds it by value. An entry of \<open>lookup_\<close> is thus a null pointer, a
  pointer to a representative, or an inner node.
\<close>

record Representative =
  getValue :: nat
  previous :: "nat option"
  "next" :: "nat option"
  getBinarySearchTree :: "nat list"

datatype TrieNode = Nullptr | Leaf nat | Split "nat option" "nat option"

text \<open>Modelled from the spec: the class \<open>BST\<close> (the Block of the specification) is not
  part of the available source. A block is built from a run of keys and holds exactly
  them; \<open>predecessor(lowerBound, limit)\<close> returns the largest stored key that is at most
  \<open>limit\<close>, and \<open>lowerBound\<close> unchanged when no stored key qualifies.\<close>

definition BST :: "nat list \<Rightarrow> nat list" where
  "BST keys = keys"

definition BST_getPredecessor :: "nat list \<Rightarrow> nat \<Rightarrow> nat \<Rightarrow> nat" where
  "BST_getPredecessor tree lowerBound limit =
     (case filter (\<lambda>k. k \<le> limit) tree of
        [] \<Rightarrow> lowerBound
      | k # ks \<Rightarrow> fold max ks k)"

text \<open>\<open>constructBST\<close> copies the iterator range from \<open>position - (groupSize - 1)\<close> up to
  and including \<open>position\<close>; a range that leaves the vector is undefined.\<close>

definition constructBST :: "int \<Rightarrow> int \<Rightarrow> nat list \<Rightarrow> fault + nat list" where
  "constructBST position groupSize values =
     (let first = position - (groupSize - 1); beyond = position + 1
      in if 0 \<le> first \<and> first \<le> beyond \<and> beyond \<le> int (length values)
         then Inr (BST (take (nat (beyond - first)) (drop (nat first) values)))
         else Inl Undefined_index)"

definition setNext :: "Representative list \<Rightarrow> int \<Rightarrow> nat \<Rightarrow> fault + Representative list" where
  "setNext representatives i target =
     (if 0 \<le> i \<and> i < int (length representatives)
      then Inr (representatives[nat i := (representatives ! nat i)\<lparr>next := Some target\<rparr>])
      else Inl Undefined_index)"

definition addRegularTrieLeaf ::
  "nat list \<Rightarrow> int \<Rightarrow> Representative list \<Rightarrow> int \<Rightarrow> fault + Representative list" where
  "addRegularTrieLeaf values index representatives depth =
     andThen (vec_at values index) (\<lambda>v.
     andThen (constructBST index depth values) (\<lambda>tree.
       if index = depth - 1
       then Inr (representatives @
                  [\<lparr>getValue = v, previous = None, next = None, getBinarySearchTree = tree\<rparr>])
       else if representatives = [] then Inl Undefined_back_of_empty
       else
         (let pushed = representatives @
                  [\<lparr>getValue = v, previous = Some (length representatives - 1), next = None,
                    getBinarySearchTree = tree\<rparr>]
          in setNext pushed (int (length pushed) - 2) (length pushed - 1))))"

definition addIrregularTrieLeaf ::
  "nat list \<Rightarrow> Representative list \<Rightarrow> int \<Rightarrow> fault + Representative list" where
  "addIrregularTrieLeaf values representatives depth =
     andThen (vec_back values) (\<lambda>v.
       if representatives = [] then Inl Undefined_back_of_empty
       else
         andThen (constructBST (int (length values) - 1) (int (length values) mod depth) values)
           (\<lambda>tree.
             (let pushed = representatives @
                    [\<lparr>getValue = v, previous = Some (length representatives - 1), next = None,
                      getBinarySearchTree = tree\<rparr>]
              in setNext pushed (int (length pushed) - 2) (length pushed - 1))))"

text \<open>
  The loop of \<open>split\<close> compares the signed counter \<open>i\<close> with \<open>values.size()\<close> as unsigned
  numbers, so a negative \<open>i\<close> ends it. The counter starts at \<open>depth_ - 1\<close> and grows by
  \<open>depth_\<close>; the loop is entered only with a positive depth. A state in which it would
  not advance is given the result \<open>Loops_forever\<close>.
\<close>

function split_loop ::
  "nat list \<Rightarrow> int \<Rightarrow> int \<Rightarrow> Representative list \<Rightarrow> fault + Representative list" where
  "split_loop values depth i representatives =
     (if 0 \<le> i \<and> i < int (length values) then
        (if depth \<le> 0 then Inl Loops_forever
         else andThen (addRegularTrieLeaf values i representatives depth)
                (split_loop values depth (i + depth)))
      else Inr representatives)"
  by pat_completeness auto
termination
  by (relation "measure (\<lambda>(values, depth, i, representatives). nat (int (length values) - i))")
    auto

definition split :: "nat list \<Rightarrow> int \<Rightarrow> fault + Representative list" where
  "split values depth =
     andThen (split_loop values depth (depth - 1) []) (\<lambda>representatives.
       if depth = 0 then Inl Undefined_division_by_zero
       else if int (length values) mod depth \<noteq> 0
       then addIrregularTrieLeaf values representatives depth
       else Inr representatives)"

subsection \<open>Building the trie\<close>

text \<open>
  \<open>constructTrie\<close> changes two things: the scratch vector \<open>representativeValues\<close>, from
  which it strips one bit per level, and the member \<open>lookup_\<close>. Both are passed through
  as a \<open>build_state\<close>. The third field, \<open>leafSteps\<close>, is a history variable that the
  program does not have: it records, for every leaf step, the path, the window
  \<open>leftRange\<close>, \<open>rightRange\<close> and the node stored.

  \<open>unordered_map::insert\<close> stores the pair only if the key is not present yet.
\<close>

record build_state =
  representativeValues :: "nat list"
  lookup :: "string \<rightharpoonup> TrieNode"
  leafSteps :: "(string \<times> int \<times> int \<times> TrieNode) list"

definition insert_new :: "(string \<rightharpoonup> TrieNode) \<Rightarrow> string \<Rightarrow> TrieNode \<Rightarrow> (string \<rightharpoonup> TrieNode)" where
  "insert_new m k v = (if m k = None then m(k \<mapsto> v) else m)"

text \<open>Reading the pointer \<open>(*representatives)[i]\<close>: the pointer to the i-th
  representative, when there is one.\<close>

definition ptr_at :: "Representative list \<Rightarrow> int \<Rightarrow> fault + nat" where
  "ptr_at representatives i =
     (if 0 \<le> i \<and> i < int (length representatives) then Inr (nat i) else Inl Undefined_index)"

text \<open>The \<open>for\<close> loop of an inner step, with its five variables.\<close>

record split_scan =
  scanned :: "nat list"
  splitIndex :: int
  leftMax :: "nat option"
  rightMin :: "nat option"
  foundSplit :: bool

function find_split ::
  "Representative list \<Rightarrow> nat \<Rightarrow> int \<Rightarrow> int \<Rightarrow> int \<Rightarrow> split_scan \<Rightarrow> fault + split_scan" where
  "find_split representatives border leftRange rightRange i s =
     (if i \<le> rightRange then
        andThen (vec_at (scanned s) i) (\<lambda>v.
          if border \<le> v then
            andThen
              (if \<not> foundSplit s then
                 andThen (if i \<noteq> leftRange
                          then andThen (ptr_at representatives (i - 1)) (\<lambda>p. Inr (Some p))
                          else Inr (leftMax s)) (\<lambda>lm.
                 andThen (ptr_at representatives i) (\<lambda>rm.
                   Inr (s\<lparr>splitIndex := i, foundSplit := True, leftMax := lm,
                           rightMin := Some rm\<rparr>)))
               else Inr s) (\<lambda>s'.
              find_split representatives border leftRange rightRange (i + 1)
                (s'\<lparr>scanned := (scanned s')[nat i := v - border]\<rparr>))
          else find_split representatives border leftRange rightRange (i + 1) s)
      else Inr s)"
  by pat_completeness auto
termination
  by (relation "measure (\<lambda>(representatives, border, leftRange, rightRange, i, s).
        nat (rightRange + 1 - i))") auto

text \<open>
  \<open>1LL << exponent\<close> is \<open>2 ^ exponent\<close> for an exponent from 0 to 63 (at 63 the
  comparison and the subtraction convert it to the unsigned \<open>2 ^ 63\<close>); a larger shift is
  undefined. At the leaf step the exponent is \<open>-1\<close> and the shifted value is not used.

  The leaf step calls \<open>bitHistory.compare(bitHistory.size(), 1, "0")\<close>, which compares
  the substring of at most one character that starts at position \<open>size()\<close> with \<open>"0"\<close>.
\<close>

definition compare_equal :: "string \<Rightarrow> nat \<Rightarrow> nat \<Rightarrow> string \<Rightarrow> bool" where
  "compare_equal s pos len other = (take len (drop pos s) = other)"

text \<open>The inner step up to the insertion of the \<open>Split\<close> node: it returns the split
  index and the state in which the values are stripped and the node is stored.\<close>

definition inner_step ::
  "Representative list \<Rightarrow> build_state \<Rightarrow> int \<Rightarrow> string \<Rightarrow> int \<Rightarrow> int \<Rightarrow> fault + (int \<times> build_state)" where
  "inner_step representatives st exponent bitHistory leftRange rightRange =
     (if exponent < 0 \<or> 63 < exponent then Inl Undefined_shift
      else
        andThen (find_split representatives (2 ^ nat exponent) leftRange rightRange leftRange
                   \<lparr>scanned = representativeValues st, splitIndex = rightRange + 1,
                    leftMax = None, rightMin = None, foundSplit = False\<rparr>) (\<lambda>s.
        andThen (if leftMax s = None \<and> rightMin s = None
                 then andThen (ptr_at representatives rightRange) (\<lambda>p. Inr (Some p))
                 else Inr (leftMax s)) (\<lambda>lm.
          Inr (splitIndex s,
               st\<lparr>representativeValues := scanned s,
                  lookup := insert_new (lookup st) bitHistory (Split lm (rightMin s))\<rparr>))))"

definition leaf_step ::
  "Representative list \<Rightarrow> build_state \<Rightarrow> string \<Rightarrow> int \<Rightarrow> int \<Rightarrow> fault + build_state" where
  "leaf_step representatives st bitHistory leftRange rightRange =
     andThen (ptr_at representatives
                (if compare_equal bitHistory (length bitHistory) 1 ''0''
                 then leftRange else rightRange)) (\<lambda>p.
       Inr (st\<lparr>lookup := insert_new (lookup st) bitHistory (Leaf p),
               leafSteps := leafSteps st @ [(bitHistory, leftRange, rightRange, Leaf p)]\<rparr>))"

function constructTrie ::
  "Representative list \<Rightarrow> build_state \<Rightarrow> int \<Rightarrow> string \<Rightarrow> int \<Rightarrow> int \<Rightarrow> fault + build_state" where
  "constructTrie representatives st exponent bitHistory leftRange rightRange =
     (if exponent \<noteq> - 1 then
        (case inner_step representatives st exponent bitHistory leftRange rightRange of
           Inl e \<Rightarrow> Inl e
         | Inr (splitAt, st1) \<Rightarrow>
             (case (if leftRange < splitAt
                    then constructTrie representatives st1 (exponent - 1) (bitHistory @ ''0'')
                           leftRange (splitAt - 1)
                    else Inr st1) of
                Inl e \<Rightarrow> Inl e
              | Inr st2 \<Rightarrow>
                  (if splitAt \<le> rightRange
                   then constructTrie representatives st2 (exponent - 1) (bitHistory @ ''1'')
                          splitAt rightRange
                   else Inr st2)))
      else leaf_step representatives st bitHistory leftRange rightRange)"
  by pat_completeness auto
termination
proof (relation "measure (\<lambda>(representatives, st, exponent, bitHistory, leftRange, rightRange).
        nat (exponent + 1))", goal_cases)
  case 1
  show ?case by simp
next
  case (2 representatives st exponent bitHistory leftRange rightRange x splitAt st1)
  from 2(2) have "0 \<le> exponent"
    by (cases "exponent < 0 \<or> 63 < exponent") (simp_all add: inner_step_def)
  then show ?case by simp
next
  case (3 representatives st exponent bitHistory leftRange rightRange x splitAt st1 st2)
  from 3(2) have "0 \<le> exponent"
    by (cases "exponent < 0 \<or> 63 < exponent") (simp_all add: inner_step_def)
  then show ?case by simp
qed

subsection \<open>The constructor\<close>

text \<open>The members \<open>depth_\<close>, \<open>representatives_\<close> and \<open>lookup_\<close> of the class.\<close>

record YTrie =
  m_depth :: int
  m_representatives :: "Representative list"
  m_lookup :: "string \<rightharpoonup> TrieNode"

definition build :: "nat list \<Rightarrow> int \<Rightarrow> Representative list \<Rightarrow> fault + build_state" where
  "build values depth representatives =
     constructTrie representatives
       \<lparr>representativeValues = map getValue representatives, lookup = Map.empty, leafSteps = []\<rparr>
       depth [] 0 (int (length representatives) - 1)"

text \<open>The constructor initialises \<open>depth_\<close> with \<open>calcDepth(values)\<close> and then runs its
  body.\<close>

definition constructor_body :: "nat list \<Rightarrow> int \<Rightarrow> fault + YTrie" where
  "constructor_body values depth =
     andThen (split values depth) (\<lambda>representatives.
     andThen (build values depth representatives) (\<lambda>st.
       Inr \<lparr>m_depth = depth, m_representatives = representatives, m_lookup = lookup st\<rparr>))"

definition new_YTrie :: "nat list \<Rightarrow> fault + YTrie" where
  "new_YTrie values = andThen (calcDepth values) (constructor_body values)"

subsection \<open>Predecessor search\<close>

text \<open>
  \<open>std::bitset<64>(limit).to_string()\<close> is the 64 binary digits of \<open>limit\<close>, most
  significant first; \<open>to_string n\<close> gives the last \<open>n\<close> of them. \<open>substr(pos)\<close> throws
  \<open>std::out_of_range\<close> when \<open>pos\<close>, converted to \<open>size_t\<close>, exceeds the length;
  \<open>substr(0, count)\<close> cannot throw, and a negative count, converted, takes everything.
\<close>

fun to_string :: "nat \<Rightarrow> nat \<Rightarrow> string" where
  "to_string 0 v = []"
| "to_string (Suc n) v =
     (if (v div 2 ^ n) mod 2 = 1 then CHR ''1'' else CHR ''0'') # to_string n v"

definition substr_from :: "string \<Rightarrow> int \<Rightarrow> fault + string" where
  "substr_from s pos =
     (if 0 \<le> pos \<and> pos \<le> int (length s) then Inr (drop (nat pos) s)
      else Inl Thrown_out_of_range)"

definition substr_to :: "string \<Rightarrow> int \<Rightarrow> string" where
  "substr_to s count = (if count < 0 then s else take (nat count) s)"

text \<open>\<open>round((lowRange + highRange) / 2)\<close>: the division is the integer division of
  C++, which truncates towards zero; \<open>round\<close> then gets an integer and returns it.\<close>

definition middle_of :: "int \<Rightarrow> int \<Rightarrow> int" where
  "middle_of lowRange highRange =
     (if 0 \<le> lowRange + highRange then (lowRange + highRange) div 2
      else - ((- (lowRange + highRange)) div 2))"

record search_state =
  lowRange :: int
  highRange :: int
  bestMatchingNode :: TrieNode

text \<open>One pass through the body of the \<open>while\<close> loop. Inside the loop \<open>lookup_[...]\<close>
  is only applied to a key that \<open>count\<close> has found, so it does not insert.\<close>

definition search_step :: "(string \<rightharpoonup> TrieNode) \<Rightarrow> string \<Rightarrow> search_state \<Rightarrow> search_state" where
  "search_step table fullBitString s =
     (let middle = middle_of (lowRange s) (highRange s);
          partBitString = substr_to fullBitString middle
      in case table partBitString of
           Some node \<Rightarrow>
             (if lowRange s = middle
              then s\<lparr>bestMatchingNode := node, lowRange := lowRange s + 1\<rparr>
              else s\<lparr>bestMatchingNode := node, lowRange := middle\<rparr>)
         | None \<Rightarrow>
             (if highRange s = middle
              then s\<lparr>highRange := highRange s - 1\<rparr>
              else s\<lparr>highRange := middle\<rparr>))"

function search_loop :: "(string \<rightharpoonup> TrieNode) \<Rightarrow> string \<Rightarrow> search_state \<Rightarrow> search_state" where
  "search_loop table fullBitString s =
     (if lowRange s \<le> highRange s
      then search_loop table fullBitString (search_step table fullBitString s)
      else s)"
  by pat_completeness auto
termination
proof (relation "measure (\<lambda>(table, fullBitString, s). nat (highRange s + 1 - lowRange s))",
    goal_cases)
  case 1
  show ?case by simp
next
  case (2 table fullBitString s)
  define middle where "middle = middle_of (lowRange s) (highRange s)"
  from 2 have "lowRange s \<le> middle" and "middle \<le> highRange s"
    unfolding middle_def middle_of_def by presburger+
  then show ?case
    by (cases "table (substr_to fullBitString middle)")
      (simp_all add: search_step_def middle_def [symmetric])
qed

text \<open>\<open>lookup_[""]\<close> before the loop is \<open>operator[]\<close> on a key that nothing has
  tested: it inserts a null pointer when the key is absent.\<close>

definition index_or_insert :: "YTrie \<Rightarrow> string \<Rightarrow> TrieNode \<times> YTrie" where
  "index_or_insert t k =
     (case m_lookup t k of
        Some node \<Rightarrow> (node, t)
      | None \<Rightarrow> (Nullptr, t\<lparr>m_lookup := (m_lookup t)(k \<mapsto> Nullptr)\<rparr>))"

text \<open>The result is an \<open>int64_t\<close>; a value of \<open>2 ^ 63\<close> or more comes out negative.\<close>

definition to_int64 :: "nat \<Rightarrow> int" where
  "to_int64 v = (if v mod 2 ^ 64 < 2 ^ 63 then int (v mod 2 ^ 64) else int (v mod 2 ^ 64) - 2 ^ 64)"

definition LLONG_MAX :: int where
  "LLONG_MAX = 2 ^ 63 - 1"

definition deref :: "YTrie \<Rightarrow> nat \<Rightarrow> fault + Representative" where
  "deref t p =
     (if p < length (m_representatives t) then Inr (m_representatives t ! p)
      else Inl Undefined_index)"

text \<open>The part of \<open>getPredecessor\<close> after the loop.\<close>

definition answer :: "YTrie \<Rightarrow> TrieNode \<Rightarrow> nat \<Rightarrow> fault + int" where
  "answer t node limit =
     (case node of
        Nullptr \<Rightarrow> Inl Undefined_null
      | Leaf p \<Rightarrow> andThen (deref t p) (\<lambda>r. Inr (to_int64 (getValue r)))
      | Split (Some l) rm \<Rightarrow>
          andThen (deref t l) (\<lambda>lmax.
            case next lmax of
              Some n \<Rightarrow>
                andThen (deref t n) (\<lambda>nx.
                  Inr (to_int64 (BST_getPredecessor (getBinarySearchTree nx) (getValue lmax) limit)))
            | None \<Rightarrow> Inr (to_int64 (getValue lmax)))
      | Split None (Some r) \<Rightarrow>
          andThen (deref t r) (\<lambda>rmin.
            case previous rmin of
              Some p \<Rightarrow>
                andThen (deref t p) (\<lambda>pv.
                  Inr (to_int64 (BST_getPredecessor (getBinarySearchTree rmin) (getValue pv) limit)))
            | None \<Rightarrow> Inr (to_int64 (BST_getPredecessor (getBinarySearchTree rmin) 0 limit)))
      | Split None None \<Rightarrow> Inr LLONG_MAX)"

text \<open>The part of \<open>getPredecessor\<close> up to the end of the loop: it yields the node the
  search stops at.\<close>

definition locate :: "YTrie \<Rightarrow> nat \<Rightarrow> fault + (TrieNode \<times> YTrie)" where
  "locate t limit =
     (case substr_from (to_string 64 limit) (64 - (m_depth t + 1)) of
        Inl e \<Rightarrow> Inl e
      | Inr fullBitString \<Rightarrow>
          (let (rootNode, t') = index_or_insert t [];
               s = search_loop (m_lookup t') fullBitString
                     \<lparr>lowRange = 0, highRange = m_depth t' + 1, bestMatchingNode = rootNode\<rparr>
           in Inr (bestMatchingNode s, t')))"

definition getPredecessor :: "YTrie \<Rightarrow> nat \<Rightarrow> (fault + int) \<times> YTrie" where
  "getPredecessor t limit =
     (case locate t limit of
        Inl e \<Rightarrow> (Inl e, t)
      | Inr (node, t') \<Rightarrow> (answer t' node limit, t'))"

section \<open>Evaluation\<close>

text \<open>The recursive equations are unfolded on demand only.\<close>

declare mantissa_shift.simps [simp del]
declare split_loop.simps [simp del]
declare find_split.simps [simp del]
declare constructTrie.simps [simp del]
declare search_loop.simps [simp del]

lemma to_string_numeral:
  "to_string (numeral k) v =
     (if (v div 2 ^ pred_numeral k) mod 2 = 1 then CHR ''1'' else CHR ''0'')
       # to_string (pred_numeral k) v"
  by (simp add: numeral_eq_Suc)

subsection \<open>Rounding to double\<close>

lemma round_even_lower: "\<lfloor>z\<rfloor> \<le> round_even z"
  by (simp add: round_even_def Let_def)

lemma round_even_upper: "of_int (round_even z) \<le> z + 1 / 2"
proof -
  define f where "f = \<lfloor>z\<rfloor>"
  have "of_int f \<le> z"
    by (simp add: f_def)
  then have "of_int (if z - of_int f < 1 / 2 then f
         else if 1 / 2 < z - of_int f then f + 1
         else if even f then f else f + 1) \<le> z + 1 / 2"
    by auto
  then show ?thesis
    by (simp only: round_even_def Let_def f_def)
qed

lemma round_even_of_int [simp]: "round_even (of_int n) = n"
  by (simp add: round_even_def)

lemma scale_cancel: "2 powr of_int (52 - e) * 2 powr of_int (e - 52) = (1::real)"
  by (simp flip: powr_add)

lemma exponent_range:
  assumes "1 \<le> y" and "y < 2 ^ 52"
  shows "0 \<le> \<lfloor>log 2 y\<rfloor>" and "\<lfloor>log 2 y\<rfloor> < 52"
proof -
  from assms(1) have "0 \<le> log 2 y"
    by simp
  then show "0 \<le> \<lfloor>log 2 y\<rfloor>"
    by simp
  from assms have "log 2 y < real 52"
    by (subst log_less_iff) (simp_all add: powr_realpow del: of_nat_numeral)
  then have "log 2 y < 52"
    by simp
  then show "\<lfloor>log 2 y\<rfloor> < 52"
    by (simp add: floor_less_iff)
qed

lemma double_at_least:
  assumes "1 \<le> n" and "real n \<le> y" and "y < 2 ^ 52"
  shows "real n \<le> to_nearest_double y"
proof -
  define e where "e = \<lfloor>log 2 y\<rfloor>"
  from assms have y: "1 \<le> y" "y \<noteq> 0" "\<bar>y\<bar> = y"
    by simp_all
  from exponent_range [OF y(1) assms(3)] have e: "0 \<le> e" "e < 52"
    by (simp_all add: e_def)
  define s where "s = (2::real) powr of_int (52 - e)"
  have s: "s = of_int (2 ^ nat (52 - e))"
    using e powr_real_of_int [of 2 "52 - e"] by (simp add: s_def)
  have "of_int (int n * 2 ^ nat (52 - e)) \<le> y * s"
    using assms(2) unfolding s by (simp add: mult_right_mono)
  then have "int n * 2 ^ nat (52 - e) \<le> \<lfloor>y * s\<rfloor>"
    by (simp only: le_floor_iff)
  also have "\<dots> \<le> round_even (y * s)"
    by (rule round_even_lower)
  finally have "real_of_int (int n * 2 ^ nat (52 - e)) \<le> real_of_int (round_even (y * s))"
    by (simp only: of_int_le_iff)
  then have A: "real_of_int (int n * 2 ^ nat (52 - e)) * 2 powr of_int (e - 52)
      \<le> real_of_int (round_even (y * s)) * 2 powr of_int (e - 52)"
    by (rule mult_right_mono) simp
  have B: "real_of_int (int n * 2 ^ nat (52 - e)) * 2 powr of_int (e - 52) = real n"
    using scale_cancel [of e] unfolding s_def [symmetric] s by (simp add: mult.assoc)
  have C: "to_nearest_double y = real_of_int (round_even (y * s)) * 2 powr of_int (e - 52)"
    using y by (simp add: to_nearest_double_def Let_def e_def s_def)
  from A show ?thesis
    unfolding B C .
qed

lemma double_of_nat:
  assumes "1 \<le> n" and "n < 2 ^ 52"
  shows "to_nearest_double (real n) = real n"
proof -
  define e where "e = \<lfloor>log 2 (real n)\<rfloor>"
  from assms have y: "1 \<le> real n" "real n < 2 ^ 52" "real n \<noteq> 0" "\<bar>real n\<bar> = real n"
    by simp_all
  from exponent_range [OF y(1,2)] have e: "0 \<le> e" "e < 52"
    by (simp_all add: e_def)
  define s where "s = (2::real) powr of_int (52 - e)"
  have s: "s = of_int (2 ^ nat (52 - e))"
    using e powr_real_of_int [of 2 "52 - e"] by (simp add: s_def)
  have "real n * s = of_int (int n * 2 ^ nat (52 - e))"
    unfolding s by simp
  then have "of_int (round_even (real n * s)) = real n * s"
    by (simp only: round_even_of_int)
  then have "to_nearest_double (real n) = real n * s * 2 powr of_int (e - 52)"
    using y(3,4) by (simp add: to_nearest_double_def Let_def e_def s_def)
  also have "\<dots> = real n"
    using scale_cancel [of e] unfolding s_def [symmetric] by (simp add: mult.assoc)
  finally show ?thesis .
qed

lemma double_at_most:
  assumes "1 \<le> y" and "y < 64"
  shows "to_nearest_double y \<le> y + 1 / 2 ^ 48"
proof -
  define e where "e = \<lfloor>log 2 y\<rfloor>"
  from assms have y: "y \<noteq> 0" "\<bar>y\<bar> = y"
    by simp_all
  from assms have "log 2 y < real 6"
    by (subst log_less_iff) (simp_all add: powr_realpow del: of_nat_numeral)
  then have "log 2 y < 6"
    by simp
  then have e: "e \<le> 5"
    by (simp add: e_def floor_less_iff)
  define s where "s = (2::real) powr of_int (52 - e)"
  define u where "u = (2::real) powr of_int (e - 52)"
  have su: "s * u = 1" and u: "0 < u"
    using scale_cancel [of e] by (simp_all add: s_def u_def)
  have "of_int (round_even (y * s)) * u \<le> (y * s + 1 / 2) * u"
    using round_even_upper [of "y * s"] u by (intro mult_right_mono) simp_all
  also have "\<dots> = y + u / 2"
    using su by (simp add: algebra_simps)
  also have "u \<le> 2 powr of_int (5 - 52)"
    unfolding u_def using e by (intro powr_mono) simp_all
  then have "y + u / 2 \<le> y + 1 / 2 ^ 48"
    by (simp add: powr_minus_divide powr_realpow [symmetric] del: powr_realpow)
  finally show ?thesis
    using y by (simp add: to_nearest_double_def Let_def e_def s_def u_def)
qed

lemma double_nonneg:
  assumes "0 \<le> y"
  shows "0 \<le> to_nearest_double y"
proof (cases "y = 0")
  case True
  then show ?thesis by (simp add: to_nearest_double_def)
next
  case False
  with assms have "0 \<le> y * 2 powr of_int (52 - \<lfloor>log 2 \<bar>y\<bar>\<rfloor>)"
    by simp
  then have "0 \<le> \<lfloor>y * 2 powr of_int (52 - \<lfloor>log 2 \<bar>y\<bar>\<rfloor>)\<rfloor>"
    by simp
  with round_even_lower [of "y * 2 powr of_int (52 - \<lfloor>log 2 \<bar>y\<bar>\<rfloor>)"]
  have "0 \<le> round_even (y * 2 powr of_int (52 - \<lfloor>log 2 \<bar>y\<bar>\<rfloor>))"
    by linarith
  with False show ?thesis
    by (simp add: to_nearest_double_def Let_def)
qed

lemma log2_below_power:
  fixes x k :: nat
  assumes "1 \<le> x" and "x < 2 ^ k"
  shows "log 2 (real x) \<le> real k - 1 / 2 ^ k"
proof -
  define u :: real where "u = 1 / 2 ^ k"
  have u: "0 < u"
    unfolding u_def by simp
  from assms have "real x \<le> 2 ^ k - 1"
    by (metis Suc_leI of_nat_Suc of_nat_le_iff of_nat_numeral of_nat_power le_diff_eq add.commute Suc_eq_plus1 of_nat_1 of_nat_add)
  also have "\<dots> = 2 ^ k * (1 - u)"
    by (simp add: u_def algebra_simps)
  finally have le: "real x \<le> 2 ^ k * (1 - u)" .
  with assms(1) have pos: "0 < 1 - u"
    by (smt (verit) mult_nonpos_nonneg of_nat_0_less_iff zero_le_power less_eq_real_def mult_le_0_iff not_less of_nat_0_le_iff of_nat_1 of_nat_le_iff zero_less_power)
  from le assms(1) have "log 2 (real x) \<le> log 2 (2 ^ k * (1 - u))"
    by (subst log_le_cancel_iff) (simp_all add: pos)
  also have "\<dots> = real k + log 2 (1 - u)"
    using pos by (simp add: log_mult)
  also have "log 2 (1 - u) \<le> - u"
  proof -
    have "ln (1 - u) \<le> - u"
      using ln_add_one_self_le_self2 [of "- u"] pos by simp
    moreover have "0 < ln (2::real)" "ln (2::real) < 1"
      using ln_2_less_1 by simp_all
    moreover from calculation u have "ln (1 - u) * 1 \<le> ln (1 - u) * ln 2"
      by (intro mult_left_mono_neg) simp_all
    ultimately have "ln (1 - u) / ln 2 \<le> ln (1 - u)"
      by (simp add: pos_divide_le_eq)
    with \<open>ln (1 - u) \<le> - u\<close> have "ln (1 - u) / ln 2 \<le> - u"
      by simp
    then show ?thesis
      by (simp add: log_def)
  qed
  finally show ?thesis
    by (simp add: u_def)
qed

lemma calcDepth_exact:
  assumes "values \<noteq> []" and "last values < 2 ^ 47"
    and "2 ^ k \<le> last values" and "last values < 2 ^ (k + 1)"
  shows "calcDepth values = Inr (int k)"
proof -
  define x where "x = last values"
  have "(2::nat) ^ 47 \<le> 2 ^ 53"
    by simp
  with assms(2) have "x < 2 ^ 53"
    unfolding x_def by (rule less_le_trans)
  then have "mantissa_shift x = 0"
    by (simp add: mantissa_shift.simps)
  then have same: "u64_to_double x = x"
    by (simp add: u64_to_double_def)
  from assms(3) have pos: "1 \<le> x"
    unfolding x_def by (cases "last values = 0") simp_all
  have "\<lfloor>std_log2 x\<rfloor> = int k"
  proof (cases "k = 0")
    case True
    with assms(4) pos have "x = 1"
      by (simp add: x_def)
    with True show ?thesis
      by (simp add: std_log2_def to_nearest_double_def)
  next
    case False
    define y where "y = log 2 (real x)"
    define K where "K = real (k + 1)"
    define s where "s = (1::real) / 2 ^ (k + 1)"
    have "(2::nat) ^ k < 2 ^ 47"
      using assms(2,3) by (rule le_less_trans [rotated])
    then have "k < 47"
      by (rule power_less_imp_less_exp [rotated]) simp
    then have k: "k + 1 \<le> 47"
      by simp
    from assms(3) pos have lower: "real k \<le> y"
      unfolding y_def x_def by (intro le_log2_of_power) simp_all
    from assms(4) have "x < 2 ^ (k + 1)"
      by (simp only: x_def)
    with pos have upper: "y \<le> K - s"
      unfolding y_def K_def s_def by (rule log2_below_power)
    have small: "0 < s"
      by (simp add: s_def)
    from k have K: "K \<le> 47"
      by (simp add: K_def del: of_nat_add)
    from False have k1: "1 \<le> real k" and kK: "real k = K - 1"
      by (simp_all add: K_def)
    from upper small K lower k1 have y: "1 \<le> y" "y < 64"
      by linarith+
    have "(64::real) \<le> 2 ^ 52"
      by simp
    with y(2) have y52: "y < 2 ^ 52"
      by (rule less_le_trans)
    from False lower y52 have atleast: "real k \<le> to_nearest_double y"
      by (intro double_at_least) simp_all
    have "(2::real) ^ (k + 1) \<le> 2 ^ 47"
      using k by (intro power_increasing) simp_all
    then have "(1::real) / 2 ^ 47 \<le> s"
      unfolding s_def by (intro divide_left_mono) simp_all
    moreover have "(1::real) / 2 ^ 48 < 1 / 2 ^ 47"
      by simp
    ultimately have "(1::real) / 2 ^ 48 < s"
      by (rule less_le_trans [rotated])
    with double_at_most [OF y] upper kK have "to_nearest_double y < real k + 1"
      by linarith
    with atleast have "\<lfloor>to_nearest_double y\<rfloor> = int k"
      by (intro floor_unique) simp_all
    then show ?thesis
      by (simp add: std_log2_def y_def)
  qed
  with same pos assms(1) show ?thesis
    by (simp add: calcDepth_def vec_back_def andThen_def x_def)
qed

subsection \<open>The scenario of the specification\<close>

definition scenario_keys :: "nat list" where
  "scenario_keys = [3, 5, 9, 12, 20, 33, 40]"

definition scenario_representatives :: "Representative list" where
  "scenario_representatives =
     [\<lparr>getValue = 20, previous = None, next = Some 1, getBinarySearchTree = [3, 5, 9, 12, 20]\<rparr>,
      \<lparr>getValue = 40, previous = Some 0, next = None, getBinarySearchTree = [33, 40]\<rparr>]"

definition scenario_lookup :: "string \<rightharpoonup> TrieNode" where
  "scenario_lookup =
     [[] \<mapsto> Split (Some 0) (Some 1), ''0'' \<mapsto> Split None (Some 0),
      ''01'' \<mapsto> Split (Some 0) None, ''010'' \<mapsto> Split None (Some 0),
      ''0101'' \<mapsto> Split (Some 0) None, ''01010'' \<mapsto> Split (Some 0) None,
      ''010100'' \<mapsto> Leaf 0, ''1'' \<mapsto> Split (Some 1) None, ''10'' \<mapsto> Split None (Some 1),
      ''101'' \<mapsto> Split (Some 1) None, ''1010'' \<mapsto> Split (Some 1) None,
      ''10100'' \<mapsto> Split (Some 1) None, ''101000'' \<mapsto> Leaf 1]"

definition scenario :: YTrie where
  "scenario = \<lparr>m_depth = 5, m_representatives = scenario_representatives,
                m_lookup = scenario_lookup\<rparr>"

lemma scenario_depth: "calcDepth scenario_keys = Inr 5"
  using calcDepth_exact [of scenario_keys 5] by (simp add: scenario_keys_def)

lemma scenario_split: "split scenario_keys 5 = Inr scenario_representatives"
  by (simp add: scenario_keys_def scenario_representatives_def split_def split_loop.simps
      addRegularTrieLeaf_def addIrregularTrieLeaf_def vec_at_def vec_back_def constructBST_def
      BST_def setNext_def andThen_def Let_def)

lemma scenario_build:
  "build scenario_keys 5 scenario_representatives =
     Inr \<lparr>representativeValues = [0, 0], lookup = scenario_lookup,
          leafSteps = [(''010100'', 0, 0, Leaf 0), (''101000'', 1, 1, Leaf 1)]\<rparr>"
  by (simp add: scenario_representatives_def scenario_lookup_def build_def constructTrie.simps
      inner_step_def leaf_step_def find_split.simps ptr_at_def vec_at_def insert_new_def
      compare_equal_def andThen_def)

lemma scenario_built: "new_YTrie scenario_keys = Inr scenario"
  by (simp add: new_YTrie_def constructor_body_def scenario_depth scenario_split scenario_build
      scenario_def andThen_def)

lemmas scenario_query_simps =
  getPredecessor_def locate_def scenario_def scenario_representatives_def scenario_lookup_def
  substr_from_def to_string_numeral index_or_insert_def search_loop.simps search_step_def
  middle_of_def substr_to_def answer_def deref_def andThen_def BST_getPredecessor_def
  to_int64_def

lemma scenario_34: "getPredecessor scenario 34 = (Inr 33, scenario)"
  by (simp add: scenario_query_simps)

lemma scenario_5: "getPredecessor scenario 5 = (Inr 5, scenario)"
  by (simp add: scenario_query_simps)

lemma scenario_2: "getPredecessor scenario 2 = (Inr 0, scenario)"
  by (simp add: scenario_query_simps)

lemma scenario_100: "getPredecessor scenario 100 = (Inr 40, scenario)"
  by (simp add: scenario_query_simps)

lemma scenario_20: "getPredecessor scenario 20 = (Inr 20, scenario)"
  by (simp add: scenario_query_simps)

lemma scenario_64: "getPredecessor scenario 64 = (Inr 20, scenario)"
  by (simp add: scenario_query_simps)

text \<open>
  C2, as stated, fails in one place: the query 2 does not end in an outcome
  "no predecessor". \<open>getPredecessor\<close> returns an \<open>int64_t\<close> and has no such outcome; for the
  query 2 it returns the number 0, the lower bound that it hands to the first block, and 0
  is not one of the keys.
\<close>

theorem scenario_query_2: "fst (getPredecessor scenario 2) = Inr 0 \<and> 0 \<notin> set scenario_keys"
  by (simp add: scenario_query_simps scenario_keys_def)

text \<open>
  C2, amended. For the input \<open>[3, 5, 9, 12, 20, 33, 40]\<close> the depth is 5; the construction
  succeeds and makes two representatives, with the blocks \<open>[3, 5, 9, 12, 20]\<close> (value 20) and
  \<open>[33, 40]\<close> (value 40); and the queries 34, 5, 2, 100 and 20 return 33, 5, 0, 40 and 20:
  the answer to the query 2 is the number 0.
\<close>

theorem scenario_results:
  "calcDepth scenario_keys = Inr 5 \<and>
   new_YTrie scenario_keys = Inr scenario \<and>
   map getBinarySearchTree (m_representatives scenario) = [[3, 5, 9, 12, 20], [33, 40]] \<and>
   map getValue (m_representatives scenario) = [20, 40] \<and>
   fst (getPredecessor scenario 34) = Inr 33 \<and>
   fst (getPredecessor scenario 5) = Inr 5 \<and>
   fst (getPredecessor scenario 2) = Inr 0 \<and>
   fst (getPredecessor scenario 100) = Inr 40 \<and>
   fst (getPredecessor scenario 20) = Inr 20"
  by (simp add: scenario_depth scenario_built scenario_34 scenario_5 scenario_2 scenario_100
      scenario_20) (simp add: scenario_def scenario_representatives_def)

subsection \<open>Depth of the largest key\<close>

lemma u64_max_to_double: "u64_to_double 18446744073709551615 = 2 ^ 64"
proof -
  have "mantissa_shift 18446744073709551615 = 11"
    by (simp add: mantissa_shift.simps)
  then show ?thesis
    by (simp add: u64_to_double_def)
qed

text \<open>
  C5. \<open>calcDepth\<close> is meant to return the floor of the binary logarithm of the largest
  key. For the largest 64-bit key, \<open>2 ^ 64 - 1\<close>, the conversion to \<open>double\<close> rounds up
  to \<open>2 ^ 64\<close>, so the function returns 64, while the floor of the logarithm of the key
  is 63.
\<close>

theorem calcDepth_at_u64_max:
  "calcDepth [18446744073709551615] = Inr 64 \<and>
   \<lfloor>log 2 (real (18446744073709551615 :: nat))\<rfloor> = 63"
proof
  have "log 2 ((2::real) ^ 64) = real 64"
    by (rule log_pow_cancel) simp_all
  then have "log 2 (real ((2::nat) ^ 64)) = real 64"
    by (simp only: of_nat_power of_nat_numeral)
  then have "std_log2 (2 ^ 64) = real 64"
    using double_of_nat [of 64] by (simp only: std_log2_def) simp
  then have "\<lfloor>std_log2 (2 ^ 64)\<rfloor> = 64"
    by simp
  then show "calcDepth [18446744073709551615] = Inr 64"
    by (simp add: calcDepth_def vec_back_def andThen_def u64_max_to_double)
  show "\<lfloor>log 2 (real (18446744073709551615 :: nat))\<rfloor> = 63"
    using floor_log_nat_eq_if [of 2 63 18446744073709551615] by simp
qed

subsection \<open>Keys just below a power of two\<close>

text \<open>
  The logarithm of a key just below a large power of two is so close to the next integer
  that it rounds to it. For the key \<open>2 ^ 49 - 1\<close> the depth comes out as 49, one more than
  the floor of the logarithm.
\<close>

lemma ln_2_lower: "3 / 5 \<le> ln (2::real)"
proof -
  have "exp (3 / 5 :: real) \<le> 1 + 3 / 5 + (3 / 5)\<^sup>2"
    by (rule exp_bound) simp_all
  also have "\<dots> \<le> 2"
    by (simp add: power2_eq_square)
  finally have "ln (exp (3 / 5 :: real)) \<le> ln 2"
    by (subst ln_le_cancel_iff) simp_all
  then show ?thesis
    by simp
qed

lemma round_even_near:
  assumes "\<bar>z - of_int N\<bar> < 1 / 2"
  shows "round_even z = N"
proof (cases "of_int N \<le> z")
  case True
  with assms have "\<lfloor>z\<rfloor> = N"
    by (intro floor_unique) simp_all
  with assms True show ?thesis
    by (simp add: round_even_def)
next
  case False
  with assms have "\<lfloor>z\<rfloor> = N - 1"
    by (intro floor_unique) simp_all
  with assms False show ?thesis
    by (simp add: round_even_def)
qed

lemma log2_just_below:
  fixes k :: nat
  assumes "4 \<le> k"
  shows "real k - 2 / 2 ^ k < log 2 (2 ^ k - 1)" and "log 2 (2 ^ k - 1) < real k"
proof -
  define u :: real where "u = 1 / 2 ^ k"
  have "(2::real) ^ 4 \<le> 2 ^ k"
    using assms by (intro power_increasing) simp_all
  then have "1 / 2 ^ k \<le> 1 / (2::real) ^ 4"
    by (intro divide_left_mono) simp_all
  then have u: "0 < u" "u \<le> 1 / 16"
    by (simp_all add: u_def)
  then have pos: "0 < 1 - u"
    by simp
  have "(2::real) ^ k - 1 = 2 ^ k * (1 - u)"
    by (simp add: u_def algebra_simps)
  then have "log 2 (2 ^ k - 1) = log 2 (2 ^ k * (1 - u))"
    by simp
  also have "\<dots> = real k + log 2 (1 - u)"
    using pos by (simp add: log_mult)
  finally have eq: "log 2 (2 ^ k - 1) = real k + ln (1 - u) / ln 2"
    by (simp add: log_def)
  have ln2: "0 < ln (2::real)"
    by simp
  have upper: "ln (1 - u) \<le> - u"
    using u by (intro ln_one_minus_pos_upper_bound) simp_all
  have lower: "- u - 2 * u\<^sup>2 \<le> ln (1 - u)"
    using u by (intro ln_one_minus_pos_lower_bound) simp_all
  from upper u(1) have neg: "ln (1 - u) < 0"
    by simp
  then have "ln (1 - u) / ln 2 < 0"
    using ln2 by (simp add: divide_neg_pos)
  with eq show "log 2 (2 ^ k - 1) < real k"
    by simp
  have "u * u \<le> u * (1 / 16)"
    using u by (intro mult_left_mono) simp_all
  then have "u\<^sup>2 \<le> u / 16"
    by (simp add: power2_eq_square)
  with lower have "- (9 / 8) * u \<le> ln (1 - u)"
    by simp
  define t where "t = u * ln 2"
  have "u * (3 / 5) \<le> t"
    unfolding t_def using ln_2_lower u(1) by (intro mult_left_mono) simp_all
  with \<open>- (9 / 8) * u \<le> ln (1 - u)\<close> u(1) have "- 2 * t < ln (1 - u)"
    by linarith
  moreover have "(- 2 * u) * ln 2 = - 2 * t"
    by (simp add: t_def)
  ultimately have "(- 2 * u) * ln 2 < ln (1 - u)"
    by (simp only:)
  then have "- 2 * u < ln (1 - u) / ln 2"
    using ln2 by (simp only: pos_less_divide_eq)
  with eq show "real k - 2 / 2 ^ k < log 2 (2 ^ k - 1)"
    by (simp add: u_def)
qed

lemma double_near_integer:
  assumes "32 \<le> y" and "y < 64" and "\<bar>y - real n\<bar> < 1 / 2 ^ 48"
  shows "to_nearest_double y = real n"
proof -
  from assms(1) have y: "y \<noteq> 0" "\<bar>y\<bar> = y" "0 < y"
    by simp_all
  from assms(1) y(3) have "real 5 \<le> log 2 y"
    by (subst le_log_iff) (simp_all add: powr_realpow del: of_nat_numeral)
  moreover from assms(2) y(3) have "log 2 y < real 6"
    by (subst log_less_iff) (simp_all add: powr_realpow del: of_nat_numeral)
  ultimately have e: "\<lfloor>log 2 y\<rfloor> = 5"
    by (intro floor_unique) simp_all
  have up: "(2::real) powr of_int (52 - 5) = 2 ^ 47"
    using powr_real_of_int [of 2 "52 - 5"] by simp
  have down: "(2::real) powr of_int (5 - 52) = 1 / 2 ^ 47"
    using powr_real_of_int [of 2 "5 - 52"] by (simp add: field_simps)
  define c :: real where "c = 2 ^ 47"
  have c: "0 < c" "1 / 2 ^ 48 * c = 1 / 2" "of_int (int n * 2 ^ 47) = real n * c"
    by (simp_all add: c_def)
  have "y * c - real n * c = (y - real n) * c"
    by (simp only: left_diff_distrib)
  then have "\<bar>y * c - real n * c\<bar> = \<bar>y - real n\<bar> * \<bar>c\<bar>"
    by (simp only: abs_mult)
  also have "\<dots> = \<bar>y - real n\<bar> * c"
    using c(1) by simp
  also have "\<dots> < 1 / 2 ^ 48 * c"
    using assms(3) c(1) by (rule mult_strict_right_mono)
  finally have "\<bar>y * c - of_int (int n * 2 ^ 47)\<bar> < 1 / 2"
    by (simp only: c)
  then have r: "round_even (y * c) = int n * 2 ^ 47"
    by (rule round_even_near)
  have "to_nearest_double y
      = of_int (round_even (y * 2 powr of_int (52 - \<lfloor>log 2 y\<rfloor>))) * 2 powr of_int (\<lfloor>log 2 y\<rfloor> - 52)"
    using y(1,2) by (simp add: to_nearest_double_def Let_def)
  also have "\<dots> = of_int (round_even (y * c)) * (1 / c)"
    by (simp only: e up down c_def)
  also have "\<dots> = real n * c * (1 / c)"
    by (simp only: r c(3))
  finally show ?thesis
    using c(1) by simp
qed

lemma calcDepth_below_power:
  "calcDepth [562949953421311] = Inr 49 \<and> \<lfloor>log 2 (real (562949953421311 :: nat))\<rfloor> = 48"
proof
  have "mantissa_shift 562949953421311 = 0"
    by (simp add: mantissa_shift.simps)
  then have same: "u64_to_double 562949953421311 = 562949953421311"
    by (simp add: u64_to_double_def)
  have x: "real (562949953421311 :: nat) = 2 ^ 49 - 1"
    by simp
  from log2_just_below [of 49]
  have near: "real 49 - 2 / 2 ^ 49 < log 2 (2 ^ 49 - 1)" "log 2 (2 ^ 49 - 1) < real 49"
    by simp_all
  define y :: real where "y = log 2 (2 ^ 49 - 1)"
  from near have "32 \<le> y" "y < 64" "\<bar>y - real 49\<bar> < 1 / 2 ^ 48"
    unfolding y_def [symmetric] by simp_all
  then have "to_nearest_double y = real 49"
    by (rule double_near_integer)
  then have "\<lfloor>std_log2 562949953421311\<rfloor> = 49"
    unfolding std_log2_def x y_def [symmetric] by simp
  then show "calcDepth [562949953421311] = Inr 49"
    by (simp add: calcDepth_def vec_back_def andThen_def same)
  show "\<lfloor>log 2 (real (562949953421311 :: nat))\<rfloor> = 48"
    using floor_log_nat_eq_if [of 2 48 562949953421311] by simp
qed

subsection \<open>Inputs the constructor does not check\<close>

lemma calcDepth_empty: "calcDepth [] = Inl Undefined_back_of_empty"
  by (simp add: calcDepth_def vec_back_def andThen_def)

lemma calcDepth_zero:
  assumes "values \<noteq> []" and "last values = 0"
  shows "calcDepth values = Inl Undefined_float_to_int"
proof -
  have "mantissa_shift 0 = 0"
    by (simp add: mantissa_shift.simps)
  then have "u64_to_double 0 = 0"
    by (simp add: u64_to_double_def)
  with assms show ?thesis
    by (simp add: calcDepth_def vec_back_def andThen_def)
qed

text \<open>
  C9, as stated, fails: on the empty vector and on a vector whose largest key is 0 the
  constructor neither throws nor reports anything. It reads \<open>values.back()\<close> of an empty
  vector, respectively converts the logarithm of 0 to a 64-bit integer; both are
  undefined behaviour, and neither is a fault that reaches the caller.
\<close>

theorem construction_faults_not_surfaced:
  "new_YTrie [] = Inl Undefined_back_of_empty \<and> \<not> surfaced Undefined_back_of_empty \<and>
   new_YTrie [0] = Inl Undefined_float_to_int \<and> \<not> surfaced Undefined_float_to_int"
  using calcDepth_zero [of "[0]"] by (simp add: new_YTrie_def calcDepth_empty andThen_def)

text \<open>
  C9, amended. The constructor makes no check of its input: on the empty vector it reads
  the last element of an empty vector, and on any vector whose largest key is 0 it converts
  the logarithm of 0 to a 64-bit integer. Both are undefined behaviour.
\<close>

theorem construction_without_checks:
  "new_YTrie [] = Inl Undefined_back_of_empty \<and>
   (values \<noteq> [] \<and> last values = 0 \<longrightarrow> new_YTrie values = Inl Undefined_float_to_int)"
  by (simp add: new_YTrie_def calcDepth_empty calcDepth_zero andThen_def)

theorem construction_without_checks_witness:
  "new_YTrie [] = Inl Undefined_back_of_empty \<and> new_YTrie [0] = Inl Undefined_float_to_int"
  using construction_without_checks [of "[0]"] by simp

subsection \<open>Queries that miss the predecessor\<close>

text \<open>
  C1, as stated, fails. There is no outcome "no predecessor": for the keys
  \<open>[3, 5, 9, 12, 20, 33, 40]\<close> and the limit 1, below every key, \<open>getPredecessor\<close> returns the
  number 0. For the same keys and the limit 64 it returns 20, although 40 is a key: only
  the low \<open>depth_ + 1 = 6\<close> binary digits of the limit steer the search, and those of 64 are
  all 0. And for the four keys \<open>[3, 5, 9, 40]\<close>, where the depth is 5 and \<open>n = d - 1\<close>, the
  constructor does not get as far as an index: \<open>addIrregularTrieLeaf\<close> takes \<open>back()\<close> of the
  representatives while there are none.
\<close>

theorem predecessor_missed:
  "new_YTrie scenario_keys = Inr scenario \<and>
   fst (getPredecessor scenario 1) = Inr 0 \<and> 1 < Min (set scenario_keys) \<and>
   fst (getPredecessor scenario 64) = Inr 20 \<and> 40 \<in> set scenario_keys \<and>
   new_YTrie [3, 5, 9, 40] = Inl Undefined_back_of_empty"
proof -
  have "calcDepth [3, 5, 9, 40] = Inr (int 5)"
    by (rule calcDepth_exact) simp_all
  moreover have "split [3, 5, 9, 40] 5 = Inl Undefined_back_of_empty"
    by (simp add: split_def split_loop.simps addIrregularTrieLeaf_def vec_back_def andThen_def)
  ultimately have "new_YTrie [3, 5, 9, 40] = Inl Undefined_back_of_empty"
    by (simp add: new_YTrie_def constructor_body_def andThen_def)
  moreover have "1 < Min (set scenario_keys)" "40 \<in> set scenario_keys"
    by (simp_all add: scenario_keys_def)
  ultimately show ?thesis
    by (simp add: scenario_built scenario_query_simps)
qed

subsection \<open>The binary search over prefix lengths\<close>

lemma middle_of_between:
  assumes "lo \<le> hi"
  shows "lo \<le> middle_of lo hi" and "middle_of lo hi \<le> hi"
  using assms unfolding middle_of_def by presburger+

lemma search_step_shrinks:
  assumes "lowRange s \<le> highRange s"
  shows "lowRange s \<le> lowRange (search_step table bits s)"
    and "highRange (search_step table bits s) \<le> highRange s"
    and "highRange (search_step table bits s) - lowRange (search_step table bits s)
           < highRange s - lowRange s"
proof -
  define middle where "middle = middle_of (lowRange s) (highRange s)"
  from middle_of_between [OF assms]
  have between: "lowRange s \<le> middle" "middle \<le> highRange s"
    by (simp_all add: middle_def)
  show "lowRange s \<le> lowRange (search_step table bits s)"
    using between
    by (cases "table (substr_to bits middle)") (simp_all add: search_step_def middle_def [symmetric])
  show "highRange (search_step table bits s) \<le> highRange s"
    using between
    by (cases "table (substr_to bits middle)") (simp_all add: search_step_def middle_def [symmetric])
  show "highRange (search_step table bits s) - lowRange (search_step table bits s)
           < highRange s - lowRange s"
    using between
    by (cases "table (substr_to bits middle)") (simp_all add: search_step_def middle_def [symmetric])
qed

lemma search_iterations:
  "\<exists>n \<le> nat (highRange s + 1 - lowRange s).
     highRange ((search_step table bits ^^ n) s) < lowRange ((search_step table bits ^^ n) s)"
proof (induction "nat (highRange s + 1 - lowRange s)" arbitrary: s rule: less_induct)
  case less
  show ?case
  proof (cases "lowRange s \<le> highRange s")
    case False
    then have "highRange ((search_step table bits ^^ 0) s) < lowRange ((search_step table bits ^^ 0) s)"
      by simp
    then show ?thesis by blast
  next
    case True
    let ?s = "search_step table bits s"
    from search_step_shrinks [OF True, of table bits]
    have smaller: "nat (highRange ?s + 1 - lowRange ?s) < nat (highRange s + 1 - lowRange s)"
      using True by linarith
    from less [OF smaller] obtain n where
      n: "n \<le> nat (highRange ?s + 1 - lowRange ?s)"
      and exited: "highRange ((search_step table bits ^^ n) ?s)
                   < lowRange ((search_step table bits ^^ n) ?s)"
      by blast
    have "(search_step table bits ^^ Suc n) s = (search_step table bits ^^ n) ?s"
      by (simp add: funpow_swap1)
    with exited have "highRange ((search_step table bits ^^ Suc n) s)
                   < lowRange ((search_step table bits ^^ Suc n) s)"
      by simp
    moreover from n smaller have "Suc n \<le> nat (highRange s + 1 - lowRange s)"
      by linarith
    ultimately show ?thesis by blast
  qed
qed

lemma search_loop_exit:
  "highRange (search_loop table bits s) < lowRange (search_loop table bits s)"
proof (induction table bits s rule: search_loop.induct)
  case (1 table fullBitString s)
  show ?case
  proof (cases "lowRange s \<le> highRange s")
    case True
    then have "search_loop table fullBitString s
                 = search_loop table fullBitString (search_step table fullBitString s)"
      by (subst search_loop.simps) simp
    with 1 [OF True] show ?thesis by simp
  next
    case False
    then have "search_loop table fullBitString s = s"
      by (subst search_loop.simps) simp
    with False show ?thesis by simp
  qed
qed

text \<open>
  C10. In every state in which the loop of \<open>getPredecessor\<close> runs its body, the body
  keeps \<open>lowRange\<close> from falling and \<open>highRange\<close> from rising and makes the interval
  strictly shorter; so after at most \<open>highRange + 1 - lowRange\<close> passes \<open>lowRange\<close> exceeds
  \<open>highRange\<close>, and that is the state in which the loop ends. This holds for every table,
  every bit string and every start state, in particular for the start state
  \<open>lowRange = 0\<close>, \<open>highRange = depth_ + 1\<close> of any depth.
\<close>

theorem search_loop_terminates:
  "(lowRange s \<le> highRange s \<longrightarrow>
      lowRange s \<le> lowRange (search_step table bits s) \<and>
      highRange (search_step table bits s) \<le> highRange s \<and>
      highRange (search_step table bits s) - lowRange (search_step table bits s)
        < highRange s - lowRange s) \<and>
   (\<exists>n \<le> nat (highRange s + 1 - lowRange s).
      highRange ((search_step table bits ^^ n) s) < lowRange ((search_step table bits ^^ n) s)) \<and>
   highRange (search_loop table bits s) < lowRange (search_loop table bits s)"
  using search_step_shrinks [of s table bits] search_iterations [of s table bits]
    search_loop_exit [of table bits s]
  by blast


theorem search_loop_terminates_witness:
  "(0::int) \<le> 6 \<and>
   highRange (search_step scenario_lookup ''100010''
      \<lparr>lowRange = 0, highRange = 6, bestMatchingNode = Split (Some 0) (Some 1)\<rparr>) = 3 \<and>
   highRange (search_loop scenario_lookup ''100010''
      \<lparr>lowRange = 0, highRange = 6, bestMatchingNode = Split (Some 0) (Some 1)\<rparr>)
   < lowRange (search_loop scenario_lookup ''100010''
      \<lparr>lowRange = 0, highRange = 6, bestMatchingNode = Split (Some 0) (Some 1)\<rparr>)"
  using search_loop_terminates [of
      "\<lparr>lowRange = 0, highRange = 6, bestMatchingNode = Split (Some 0) (Some 1)\<rparr>"
      scenario_lookup "''100010''"]
  by (simp add: search_step_def middle_of_def substr_to_def scenario_lookup_def)

section \<open>The splitter\<close>

subsection \<open>Basic facts\<close>

lemma andThen_Inr: "andThen m f = Inr y \<longleftrightarrow> (\<exists>x. m = Inr x \<and> f x = Inr y)"
  by (cases m) (simp_all add: andThen_def)

lemma andThen_simps [simp]:
  "andThen (Inl e) f = Inl e" "andThen (Inr x) f = f x"
  by (simp_all add: andThen_def)

lemma vec_at_nat: "i < length v \<Longrightarrow> vec_at v (int i) = Inr (v ! i)"
  by (simp add: vec_at_def)

lemma ptr_at_nat: "i < length v \<Longrightarrow> ptr_at v (int i) = Inr i"
  by (simp add: ptr_at_def)

lemma constructBST_nat:
  assumes "1 \<le> g" and "g \<le> pos + 1" and "pos < length vs"
  shows "constructBST (int pos) (int g) vs = Inr (take g (drop (pos + 1 - g) vs))"
proof -
  have first: "int pos - (int g - 1) = int (pos + 1 - g)"
    using assms by linarith
  have beyond: "int pos + 1 = int (pos + 1)"
    by simp
  have size: "nat (int (pos + 1) - int (pos + 1 - g)) = g"
    using assms by linarith
  show ?thesis
    unfolding constructBST_def Let_def first beyond size BST_def
    using assms by (simp only: nat_int of_nat_le_iff of_nat_0_le_iff) simp
qed

subsection \<open>What \<open>split\<close> builds\<close>

text \<open>
  The representatives that \<open>split\<close> leaves behind, described directly: \<open>block d vs j\<close>
  is the j-th run of \<open>d\<close> keys, \<open>linked d vs c j\<close> the j-th of \<open>c\<close> representatives
  with its links, and \<open>chain d vs c\<close> the vector of all of them.
\<close>

definition block :: "nat \<Rightarrow> nat list \<Rightarrow> nat \<Rightarrow> nat list" where
  "block d vs j = take d (drop (j * d) vs)"

definition linked :: "nat \<Rightarrow> nat list \<Rightarrow> nat \<Rightarrow> nat \<Rightarrow> Representative" where
  "linked d vs c j =
     \<lparr>getValue = last (block d vs j),
      previous = (if j = 0 then None else Some (j - 1)),
      next = (if j + 1 < c then Some (j + 1) else None),
      getBinarySearchTree = block d vs j\<rparr>"

definition chain :: "nat \<Rightarrow> nat list \<Rightarrow> nat \<Rightarrow> Representative list" where
  "chain d vs c = map (linked d vs c) [0..<c]"

lemma length_chain [simp]: "length (chain d vs c) = c"
  by (simp add: chain_def)

lemma nth_chain [simp]: "j < c \<Longrightarrow> chain d vs c ! j = linked d vs c j"
  by (simp add: chain_def)

lemma chain_Suc:
  "chain d vs (Suc c) =
     (if c = 0 then [linked d vs 1 0]
      else (chain d vs c @ [linked d vs (Suc c) c])
             [c - 1 := ((chain d vs c @ [linked d vs (Suc c) c]) ! (c - 1))\<lparr>next := Some c\<rparr>])"
proof (cases "c = 0")
  case True
  then show ?thesis by (simp add: chain_def)
next
  case False
  let ?r = "(chain d vs c @ [linked d vs (Suc c) c])
             [c - 1 := ((chain d vs c @ [linked d vs (Suc c) c]) ! (c - 1))\<lparr>next := Some c\<rparr>]"
  have "chain d vs (Suc c) = ?r"
  proof (rule nth_equalityI)
    show "length (chain d vs (Suc c)) = length ?r" by simp
  next
    fix j assume "j < length (chain d vs (Suc c))"
    then have j: "j < Suc c" by simp
    consider "j = c" | "j = c - 1" "j < c" | "j < c - 1" using j False by linarith
    then show "chain d vs (Suc c) ! j = ?r ! j"
    proof cases
      case 1
      with False show ?thesis by (simp add: nth_append)
    next
      case 2
      with False show ?thesis by (simp add: nth_append linked_def)
    next
      case 3
      then have "j < c" and "Suc j < c" by linarith+
      with 3 False show ?thesis by (simp add: nth_append linked_def)
    qed
  qed
  with False show ?thesis by simp
qed

lemma block_full:
  assumes "(j + 1) * d \<le> length vs" and "0 < d"
  shows "length (block d vs j) = d" and "last (block d vs j) = vs ! ((j + 1) * d - 1)"
proof -
  from assms show len: "length (block d vs j) = d"
    by (simp add: block_def)
  from assms have "block d vs j \<noteq> []" using len by auto
  then have "last (block d vs j) = block d vs j ! (d - 1)"
    using len by (simp add: last_conv_nth)
  also have "\<dots> = vs ! (j * d + (d - 1))"
    using assms by (simp add: block_def)
  also have "j * d + (d - 1) = (j + 1) * d - 1"
    using assms(2) by (simp add: algebra_simps)
  finally show "last (block d vs j) = vs ! ((j + 1) * d - 1)" .
qed

lemma addRegularTrieLeaf_chain:
  assumes "0 < d" and "(c + 1) * d \<le> length vs"
  shows "addRegularTrieLeaf vs (int ((c + 1) * d) - 1) (chain d vs c) (int d)
           = Inr (chain d vs (Suc c))"
proof -
  have idx: "int ((c + 1) * d) - 1 = int ((c + 1) * d - 1)"
    using assms(1) by (simp add: of_nat_diff)
  have "0 < (c + 1) * d"
    using assms(1) by simp
  then have "(c + 1) * d - 1 < length vs"
    using assms(2) by linarith
  then have at: "vec_at vs (int ((c + 1) * d) - 1) = Inr (last (block d vs c))"
    using assms block_full(2) [of c d vs] unfolding idx by (simp only: vec_at_nat)
  have "(c + 1) * d - 1 + 1 - d = c * d"
    using assms(1) by (cases d) simp_all
  then have bst: "constructBST (int ((c + 1) * d) - 1) (int d) vs = Inr (block d vs c)"
    unfolding idx
    using constructBST_nat [of d "(c + 1) * d - 1" vs] assms \<open>(c + 1) * d - 1 < length vs\<close>
    by (simp add: block_def)
  have first: "int ((c + 1) * d) - 1 = int d - 1 \<longleftrightarrow> c = 0"
    using assms(1) by (simp add: algebra_simps)
  show ?thesis
  proof (cases "c = 0")
    case True
    then show ?thesis
      using at bst first
      by (simp add: addRegularTrieLeaf_def chain_def linked_def)
  next
    case False
    then have "chain d vs c \<noteq> []"
      by (simp add: chain_def)
    moreover have "linked d vs (Suc c) c =
        \<lparr>getValue = last (block d vs c), previous = Some (c - 1), next = None,
         getBinarySearchTree = block d vs c\<rparr>"
      using False by (simp add: linked_def)
    ultimately show ?thesis
      using at bst first False
      by (simp add: addRegularTrieLeaf_def chain_Suc setNext_def Let_def nat_diff_distrib
          del: nth_chain length_chain) (simp add: nat_diff_distrib)
  qed
qed



lemma less_next_multiple:
  fixes n d :: nat
  assumes "0 < d"
  shows "n < (n div d + 1) * d"
  by (simp add: assms dividend_less_times_div mult.commute)

lemma multiple_le:
  fixes n d c :: nat
  assumes "c \<le> n div d"
  shows "c * d \<le> n"
proof -
  from assms have "c * d \<le> n div d * d"
    by (rule mult_le_mono1)
  also have "\<dots> \<le> n"
    by simp
  finally show ?thesis .
qed

lemma ceil_div:
  fixes n d :: nat
  assumes "0 < d"
  shows "(n + d - 1) div d = (if n mod d = 0 then n div d else Suc (n div d))"
proof -
  define q r where "q = n div d" and "r = n mod d"
  have n: "n = q * d + r" and r: "r < d"
    using assms by (simp_all add: q_def r_def)
  show ?thesis
  proof (cases "r = 0")
    case True
    then have e: "n + d - 1 = (d - 1) + q * d"
      using n assms by linarith
    have "((d - 1) + q * d) div d = q + (d - 1) div d"
      using assms by (intro div_mult_self1) simp
    moreover have "(d - 1) div d = 0"
      using assms by simp
    ultimately have "(n + d - 1) div d = q"
      unfolding e by simp
    with True show ?thesis
      by (simp add: q_def r_def)
  next
    case False
    have "(q + 1) * d = q * d + d"
      by simp
    with False have e: "n + d - 1 = (r - 1) + (q + 1) * d"
      using n by linarith
    have "((r - 1) + (q + 1) * d) div d = (q + 1) + (r - 1) div d"
      using assms by (intro div_mult_self1) simp
    moreover have "(r - 1) div d = 0"
      using r by simp
    ultimately have "(n + d - 1) div d = q + 1"
      unfolding e by simp
    with False show ?thesis
      by (simp add: q_def r_def)
  qed
qed

lemma block_rest:
  assumes "0 < d" and "length vs mod d \<noteq> 0"
  shows "block d vs (length vs div d) = drop (length vs - length vs mod d) vs"
    and "last (block d vs (length vs div d)) = last vs"
proof -
  have pos: "length vs div d * d = length vs - length vs mod d"
    by (metis minus_mod_eq_div_mult)
  have "length (drop (length vs - length vs mod d) vs) = length vs mod d"
    by simp
  moreover have "length vs mod d < d"
    using assms(1) by simp
  ultimately show eq: "block d vs (length vs div d) = drop (length vs - length vs mod d) vs"
    unfolding block_def pos by simp
  have "0 < length vs mod d" and "length vs mod d \<le> length vs"
    using assms(2) by simp_all
  then have "length vs - length vs mod d < length vs"
    by linarith
  then show "last (block d vs (length vs div d)) = last vs"
    unfolding eq by simp
qed

lemma addIrregularTrieLeaf_chain:
  assumes "0 < d" and "length vs mod d \<noteq> 0" and "c = length vs div d" and "0 < c"
  shows "addIrregularTrieLeaf vs (chain d vs c) (int d) = Inr (chain d vs (Suc c))"
proof -
  from assms(2) have nonempty: "vs \<noteq> []" by auto
  then have n: "int (length vs) - 1 = int (length vs - 1)" and less: "length vs - 1 < length vs"
    by (simp_all add: of_nat_diff Suc_leI)
  have m: "int (length vs) mod int d = int (length vs mod d)"
    by (simp add: zmod_int)
  have again: "length vs - 1 + 1 = length vs"
    using less by linarith
  have "length vs mod d \<le> length vs"
    by simp
  with again have "length vs mod d \<le> length vs - 1 + 1"
    by simp
  moreover have "1 \<le> length vs mod d"
    using assms(2) by simp
  ultimately have "constructBST (int (length vs - 1)) (int (length vs mod d)) vs
               = Inr (take (length vs mod d) (drop (length vs - 1 + 1 - length vs mod d) vs))"
    using less by (intro constructBST_nat)
  note this [unfolded again]
  moreover note again
  ultimately have bst:
    "constructBST (int (length vs) - 1) (int (length vs) mod int d) vs
       = Inr (block d vs c)"
    unfolding n m using block_rest(1) [OF assms(1,2)] assms(3) by simp
  have "chain d vs c \<noteq> []"
    using assms(4) by (simp add: chain_def)
  moreover have "linked d vs (Suc c) c =
      \<lparr>getValue = last vs, previous = Some (c - 1), next = None,
       getBinarySearchTree = block d vs c\<rparr>"
    using assms(3,4) block_rest(2) [OF assms(1,2)] by (simp add: linked_def)
  ultimately show ?thesis
    using bst nonempty assms(4)
    by (simp add: addIrregularTrieLeaf_def vec_back_def chain_Suc setNext_def Let_def
        nat_diff_distrib del: nth_chain length_chain) (simp add: nat_diff_distrib)
qed

lemma split_loop_chain:
  assumes "0 < d" and "c \<le> length vs div d"
  shows "split_loop vs (int d) (int ((c + 1) * d) - 1) (chain d vs c)
           = Inr (chain d vs (length vs div d))"
  using assms(2)
proof (induction "length vs div d - c" arbitrary: c)
  case 0
  then have c: "c = length vs div d" by simp
  have "length vs < (c + 1) * d"
    unfolding c using assms(1) by (rule less_next_multiple)
  then have "\<not> int ((c + 1) * d) - 1 < int (length vs)"
    by linarith
  then show ?case
    by (subst split_loop.simps) (simp add: c)
next
  case (Suc k)
  then have "Suc c \<le> length vs div d" by linarith
  then have fits: "(c + 1) * d \<le> length vs"
    using multiple_le [of "c + 1" "length vs" d] by simp
  have "0 < (c + 1) * d"
    using assms(1) by simp
  with fits have cond: "0 \<le> int ((c + 1) * d) - 1" "int ((c + 1) * d) - 1 < int (length vs)"
    by linarith+
  have step: "int ((c + 1) * d) - 1 + int d = int ((Suc c + 1) * d) - 1"
    by (simp add: algebra_simps)
  from Suc(2) have "k = length vs div d - Suc c" by simp
  note IH = Suc(1) [OF this \<open>Suc c \<le> length vs div d\<close>]
  have "split_loop vs (int d) (int ((c + 1) * d) - 1) (chain d vs c)
          = andThen (addRegularTrieLeaf vs (int ((c + 1) * d) - 1) (chain d vs c) (int d))
              (split_loop vs (int d) (int ((c + 1) * d) - 1 + int d))"
    using cond assms(1) by (subst split_loop.simps) simp
  also have "\<dots> = split_loop vs (int d) (int ((Suc c + 1) * d) - 1) (chain d vs (Suc c))"
    by (simp only: addRegularTrieLeaf_chain [OF assms(1) fits] andThen_simps step)
  also note IH
  finally show ?case .
qed

lemma split_chain:
  assumes "0 < d" and "d \<le> length vs"
  shows "split vs (int d) = Inr (chain d vs ((length vs + d - 1) div d))"
proof -
  have loop: "split_loop vs (int d) (int d - 1) [] = Inr (chain d vs (length vs div d))"
    using split_loop_chain [OF assms(1), of 0 vs] by (simp add: chain_def)
  have full: "0 < length vs div d"
    using assms by (simp add: div_greater_zero_iff)
  show ?thesis
  proof (cases "length vs mod d = 0")
    case True
    then have "(length vs + d - 1) div d = length vs div d"
      using ceil_div [OF assms(1), of "length vs"] by simp
    with True loop assms(1) show ?thesis
      by (simp add: split_def zmod_int [symmetric] del: of_nat_mod)
  next
    case False
    have "(length vs + d - 1) div d = Suc (length vs div d)"
      using ceil_div [OF assms(1), of "length vs"] False by simp
    with False loop assms(1) full
      addIrregularTrieLeaf_chain [OF assms(1) False refl full]
    show ?thesis
      by (simp add: split_def zmod_int [symmetric] del: of_nat_mod)
  qed
qed

lemma split_fails:
  assumes "0 \<le> depth" and "vs \<noteq> []" and "\<not> (0 < depth \<and> nat depth \<le> length vs)"
  shows "\<exists>e. split vs depth = Inl e"
proof (cases "depth = 0")
  case True
  have "split_loop vs 0 (- 1) [] = Inr []"
    by (subst split_loop.simps) simp
  with True show ?thesis
    by (simp add: split_def)
next
  case False
  with assms have d: "0 < nat depth" "depth = int (nat depth)" and short: "length vs < nat depth"
    by simp_all
  then have none: "length vs div nat depth = 0" and rest: "length vs mod nat depth = length vs"
    by simp_all
  have "split_loop vs (int (nat depth)) (int (nat depth) - 1) []
          = Inr (chain (nat depth) vs (length vs div nat depth))"
    using split_loop_chain [OF d(1), of 0 vs] by (simp add: chain_def)
  then have "split_loop vs depth (depth - 1) [] = Inr []"
    using none d(2) by (simp add: chain_def)
  moreover have "int (length vs) mod depth \<noteq> 0"
    using rest assms(2) d(2) by (metis length_0_conv of_nat_eq_0_iff zmod_int)
  ultimately show ?thesis
    using False assms(2)
    by (simp add: split_def addIrregularTrieLeaf_def vec_back_def)
qed

lemma split_Inr:
  assumes "0 \<le> depth" and "vs \<noteq> []" and "split vs depth = Inr reps"
  shows "0 < depth" and "nat depth \<le> length vs"
    and "reps = chain (nat depth) vs ((length vs + nat depth - 1) div nat depth)"
proof -
  from split_fails [OF assms(1,2)] assms(3)
  show ok: "0 < depth" "nat depth \<le> length vs"
    by auto
  then have "split vs (int (nat depth)) = Inr (chain (nat depth) vs ((length vs + nat depth - 1) div nat depth))"
    by (intro split_chain) simp_all
  with ok(1) assms(3) show "reps = chain (nat depth) vs ((length vs + nat depth - 1) div nat depth)"
    by simp
qed

lemma calcDepth_Inr:
  assumes "calcDepth vs = Inr depth"
  shows "vs \<noteq> []" and "0 \<le> depth"
proof -
  from assms show "vs \<noteq> []"
    by (cases "vs = []") (simp_all add: calcDepth_def vec_back_def)
  with assms have "u64_to_double (last vs) \<noteq> 0"
    and "depth = \<lfloor>std_log2 (u64_to_double (last vs))\<rfloor>"
    by (simp_all add: calcDepth_def vec_back_def split: if_splits)
  moreover from this(1) have "0 \<le> log 2 (real (u64_to_double (last vs)))"
    by simp
  then have "0 \<le> std_log2 (u64_to_double (last vs))"
    unfolding std_log2_def by (rule double_nonneg)
  ultimately show "0 \<le> depth"
    by simp
qed

lemma concat_blocks: "concat (map (block d vs) [0..<c]) = take (c * d) vs"
proof (induction c)
  case 0
  show ?case by simp
next
  case (Suc c)
  have "Suc c * d = c * d + d"
    by simp
  then have "take (Suc c * d) vs = take (c * d) vs @ take d (drop (c * d) vs)"
    by (simp only: take_add)
  with Suc show ?case
    by (simp add: block_def)
qed

lemma blocks_of_chain: "map getBinarySearchTree (chain d vs c) = map (block d vs) [0..<c]"
  by (simp add: chain_def linked_def)

lemma ceil_times:
  fixes n d :: nat
  assumes "0 < d"
  shows "n \<le> (n + d - 1) div d * d"
proof -
  have "n < (n div d + 1) * d"
    using assms by (rule less_next_multiple)
  moreover have "n mod d = 0 \<Longrightarrow> n = n div d * d"
    using div_mult_mod_eq [of n d] by simp
  ultimately show ?thesis
    unfolding ceil_div [OF assms] by (cases "n mod d = 0") simp_all
qed

lemma below_ceil:
  fixes n d j :: nat
  assumes "0 < d" and "j < (n + d - 1) div d"
  shows "j * d < n"
proof -
  from assms(2) have "(j + 1) * d \<le> n + d - 1"
    using multiple_le [of "j + 1" "n + d - 1" d] by simp
  moreover have "(j + 1) * d = j * d + d"
    by simp
  ultimately show ?thesis
    using assms(1) by linarith
qed

lemma block_nonempty:
  assumes "0 < d" and "j < (length vs + d - 1) div d"
  shows "block d vs j \<noteq> []"
  using below_ceil [OF assms] assms(1) by (simp add: block_def)

lemma block_inner:
  assumes "0 < d" and "j + 1 < (length vs + d - 1) div d"
  shows "length (block d vs j) = d"
proof -
  from assms(2) have "(j + 1) * d < length vs"
    by (intro below_ceil [OF assms(1)])
  then show ?thesis
    using assms(1) by (intro block_full(1)) simp_all
qed

lemma last_is_Max:
  fixes xs :: "nat list"
  assumes "sorted xs" and "xs \<noteq> []"
  shows "last xs = Max (set xs)"
proof (rule Max_eqI [symmetric])
  show "finite (set xs)" by simp
  show "last xs \<in> set xs" using assms(2) by simp
  fix y assume "y \<in> set xs"
  then obtain i where "i < length xs" and "y = xs ! i"
    by (auto simp: in_set_conv_nth)
  then show "y \<le> last xs"
    using assms by (simp add: last_conv_nth sorted_nth_mono)
qed

lemma sorted_block: "sorted vs \<Longrightarrow> sorted (block d vs j)"
  by (simp add: block_def sorted_wrt_take sorted_wrt_drop)


text \<open>
  When \<open>split\<close> succeeds for the computed depth \<open>d\<close>, it makes \<open>\<lceil>n / d\<rceil>\<close> representatives;
  the block of the \<open>j\<close>-th is the run of up to \<open>d\<close> keys from position \<open>j * d\<close> on. So the
  blocks, in order, make up the whole input; every block but the last has exactly \<open>d\<close>
  keys; the last has \<open>n mod d\<close> keys when that is not zero; no block is empty and each
  representative carries the last key of its block, which for sorted input is the largest
  one.
\<close>

lemma blocks_of_split:
  assumes "calcDepth values = Inr depth" and "split values depth = Inr representatives"
  shows "length representatives = (length values + nat depth - 1) div nat depth \<and>
    (\<forall>j < length representatives.
        getBinarySearchTree (representatives ! j) = take (nat depth) (drop (j * nat depth) values)) \<and>
    concat (map getBinarySearchTree representatives) = values \<and>
    (\<forall>j. j + 1 < length representatives \<longrightarrow>
        length (getBinarySearchTree (representatives ! j)) = nat depth) \<and>
    (length values mod nat depth \<noteq> 0 \<longrightarrow>
        length (getBinarySearchTree (last representatives)) = length values mod nat depth) \<and>
    (\<forall>j < length representatives.
        getBinarySearchTree (representatives ! j) \<noteq> [] \<and>
        getValue (representatives ! j) = last (getBinarySearchTree (representatives ! j))) \<and>
    (sorted values \<longrightarrow>
       (\<forall>j < length representatives.
          getValue (representatives ! j) = Max (set (getBinarySearchTree (representatives ! j)))))"
proof -
  define d where "d = nat depth"
  define c where "c = (length values + d - 1) div d"
  from calcDepth_Inr [OF assms(1)] split_Inr [OF _ _ assms(2)]
  have d: "0 < d" and reps: "representatives = chain d values c"
    by (simp_all add: d_def c_def)
  have len: "length representatives = c"
    by (simp add: reps)
  have nth: "representatives ! j = linked d values c j" if "j < c" for j
    using that by (simp add: reps)
  have run: "getBinarySearchTree (representatives ! j) = take d (drop (j * d) values)"
    if "j < c" for j
    using that by (simp add: nth linked_def block_def)
  have whole: "concat (map getBinarySearchTree representatives) = values"
    using ceil_times [OF d, of "length values"]
    by (simp add: reps blocks_of_chain concat_blocks c_def)
  have inside: "length (getBinarySearchTree (representatives ! j)) = d" if "j + 1 < c" for j
    using that block_inner [OF d, of j "values"] by (simp add: nth linked_def c_def)
  have rest: "length (getBinarySearchTree (last representatives)) = length values mod d"
    if "length values mod d \<noteq> 0"
  proof -
    from that have c: "c = Suc (length values div d)"
      unfolding c_def ceil_div [OF d] by simp
    then have "last representatives = linked d values c (length values div d)"
      by (simp add: reps chain_def)
    then show ?thesis
      using block_rest(1) [OF d that] by (simp add: linked_def)
  qed
  have carried: "getBinarySearchTree (representatives ! j) \<noteq> [] \<and>
      getValue (representatives ! j) = last (getBinarySearchTree (representatives ! j))"
    if "j < c" for j
    using that block_nonempty [OF d, of j "values"] by (simp add: nth linked_def c_def)
  have largest: "getValue (representatives ! j) = Max (set (getBinarySearchTree (representatives ! j)))"
    if "sorted values" and "j < c" for j
    using that carried [OF that(2)] last_is_Max [OF sorted_block [OF that(1), of d j]]
    by (simp add: nth linked_def)
  from len run whole inside rest carried largest show ?thesis
    unfolding len d_def [symmetric] c_def [symmetric] by blast
qed

lemma blocks_of_split_scenario:
  "calcDepth scenario_keys = Inr 5 \<and> split scenario_keys 5 = Inr scenario_representatives \<and>
   concat (map getBinarySearchTree scenario_representatives) = scenario_keys \<and>
   length (getBinarySearchTree (scenario_representatives ! 0)) = 5 \<and>
   length (getBinarySearchTree (last scenario_representatives)) = 2 \<and>
   getValue (scenario_representatives ! 0) = 20 \<and>
   getValue (scenario_representatives ! 1) = 40"
  using blocks_of_split [OF scenario_depth scenario_split]
  by (simp add: scenario_depth scenario_split)
    (simp add: scenario_representatives_def scenario_keys_def)

text \<open>\<open>split\<close> succeeds only if the depth is at least 1 and there are at least as many
  keys as the depth.\<close>

lemma split_needs_full_block:
  assumes "calcDepth values = Inr depth" and "split values depth = Inr representatives"
  shows "0 < depth" and "nat depth \<le> length values"
  using calcDepth_Inr [OF assms(1)] split_Inr [OF _ _ assms(2)] by simp_all

text \<open>
  C4. The construction is meant to cut every input into blocks of \<open>d\<close> keys and a last
  block of \<open>n mod d\<close> keys. With fewer keys than the depth it does not: for the four keys
  \<open>[3, 5, 9, 40]\<close> the depth is 5, the loop of \<open>split\<close> adds no representative, and
  \<open>addIrregularTrieLeaf\<close>, which is to add the one block of \<open>4 = n mod d\<close> keys, first takes
  \<open>back()\<close> of the empty vector of representatives. For the single key 1 the depth is 0 and
  \<open>split\<close> divides by it in \<open>values.size() % depth_\<close>.
\<close>

theorem split_of_short_input:
  "calcDepth [3, 5, 9, 40] = Inr 5 \<and>
   split [3, 5, 9, 40] 5 = Inl Undefined_back_of_empty \<and>
   calcDepth [1] = Inr 0 \<and>
   split [1] 0 = Inl Undefined_division_by_zero"
proof -
  have "calcDepth [3, 5, 9, 40] = Inr (int 5)"
    by (rule calcDepth_exact) simp_all
  moreover have "calcDepth [1] = Inr (int 0)"
    by (rule calcDepth_exact) simp_all
  moreover have "split [3, 5, 9, 40] 5 = Inl Undefined_back_of_empty"
    by (simp add: split_def split_loop.simps addIrregularTrieLeaf_def vec_back_def andThen_def)
  moreover have "split [1] 0 = Inl Undefined_division_by_zero"
    by (simp add: split_def split_loop.simps andThen_def)
  ultimately show ?thesis
    by simp
qed

section \<open>The trie builder\<close>

subsection \<open>A rule for the recursion of \<open>constructTrie\<close>\<close>

lemma constructTrie_leaf:
  "constructTrie reps st (- 1) path lo hi = leaf_step reps st path lo hi"
  by (subst constructTrie.simps) simp

lemma constructTrie_inner:
  assumes "e \<noteq> - 1" and "constructTrie reps st e path lo hi = Inr st'"
  obtains k st1 st2 where
    "inner_step reps st e path lo hi = Inr (k, st1)"
    "if lo < k then constructTrie reps st1 (e - 1) (path @ ''0'') lo (k - 1) = Inr st2
     else st2 = st1"
    "if k \<le> hi then constructTrie reps st2 (e - 1) (path @ ''1'') k hi = Inr st'
     else st' = st2"
proof -
  from assms obtain k st1 where inner: "inner_step reps st e path lo hi = Inr (k, st1)"
    by (subst (asm) constructTrie.simps) (auto split: sum.splits)
  with assms obtain st2 where
    l: "(if lo < k then constructTrie reps st1 (e - 1) (path @ ''0'') lo (k - 1) else Inr st1)
          = Inr st2"
    by (subst (asm) constructTrie.simps) (auto split: sum.splits)
  with assms inner have
    r: "(if k \<le> hi then constructTrie reps st2 (e - 1) (path @ ''1'') k hi else Inr st2)
          = Inr st'"
    by (subst (asm) constructTrie.simps) (auto split: sum.splits)
  from l have "if lo < k then constructTrie reps st1 (e - 1) (path @ ''0'') lo (k - 1) = Inr st2
     else st2 = st1"
    by (auto split: if_splits)
  moreover from r have "if k \<le> hi then constructTrie reps st2 (e - 1) (path @ ''1'') k hi = Inr st'
     else st' = st2"
    by (auto split: if_splits)
  ultimately show thesis
    using inner that by blast
qed

lemma constructTrie_rule:
  assumes "constructTrie reps st e path lo hi = Inr st'"
    and "P st e path lo hi"
    and leaf: "\<And>st path lo hi st'.
      \<lbrakk>P st (- 1) path lo hi; leaf_step reps st path lo hi = Inr st'\<rbrakk>
      \<Longrightarrow> Q st (- 1) path lo hi st'"
    and left: "\<And>st e path lo hi k st1.
      \<lbrakk>e \<noteq> - 1; P st e path lo hi; inner_step reps st e path lo hi = Inr (k, st1); lo < k\<rbrakk>
      \<Longrightarrow> P st1 (e - 1) (path @ ''0'') lo (k - 1)"
    and right: "\<And>st e path lo hi k st1 st2.
      \<lbrakk>e \<noteq> - 1; P st e path lo hi; inner_step reps st e path lo hi = Inr (k, st1);
       if lo < k then Q st1 (e - 1) (path @ ''0'') lo (k - 1) st2 else st2 = st1; k \<le> hi\<rbrakk>
      \<Longrightarrow> P st2 (e - 1) (path @ ''1'') k hi"
    and join: "\<And>st e path lo hi k st1 st2 st3.
      \<lbrakk>e \<noteq> - 1; P st e path lo hi; inner_step reps st e path lo hi = Inr (k, st1);
       if lo < k then Q st1 (e - 1) (path @ ''0'') lo (k - 1) st2 else st2 = st1;
       if k \<le> hi then Q st2 (e - 1) (path @ ''1'') k hi st3 else st3 = st2\<rbrakk>
      \<Longrightarrow> Q st e path lo hi st3"
  shows "Q st e path lo hi st'"
proof -
  have "Q st e path lo hi st'"
    if "constructTrie r st e path lo hi = Inr st'" and "r = reps" and "P st e path lo hi" for r
    using that
  proof (induction r st e path lo hi arbitrary: st' rule: constructTrie.induct)
    case (1 r st e path lo hi)
    note run = "1.prems"(1) [unfolded \<open>r = reps\<close>] and pre = "1.prems"(3)
    show ?case
    proof (cases "e = - 1")
      case True
      with run pre have "P st (- 1) path lo hi" and "leaf_step reps st path lo hi = Inr st'"
        by (simp_all add: constructTrie_leaf)
      from leaf [OF this] True show ?thesis
        by simp
    next
      case False
      from constructTrie_inner [OF False run] obtain k st1 st2 where
        inner: "inner_step reps st e path lo hi = Inr (k, st1)"
        and l: "if lo < k then constructTrie reps st1 (e - 1) (path @ ''0'') lo (k - 1) = Inr st2
                else st2 = st1"
        and r: "if k \<le> hi then constructTrie reps st2 (e - 1) (path @ ''1'') k hi = Inr st'
                else st' = st2"
        by blast
      note inner' = inner [folded \<open>r = reps\<close>]
      have ql: "if lo < k then Q st1 (e - 1) (path @ ''0'') lo (k - 1) st2 else st2 = st1"
      proof (cases "lo < k")
        case True
        with l have "constructTrie r st1 (e - 1) (path @ ''0'') lo (k - 1) = Inr st2"
          by (simp add: \<open>r = reps\<close>)
        from "1.IH"(1) [OF False inner' refl True this \<open>r = reps\<close>
            left [OF False pre inner True]]
        show ?thesis using True by simp
      next
        case False
        with l show ?thesis by simp
      qed
      from l have run_l: "(if lo < k then constructTrie r st1 (e - 1) (path @ ''0'') lo (k - 1)
                           else Inr st1) = Inr st2"
        by (simp add: \<open>r = reps\<close> split: if_splits)
      have qr: "if k \<le> hi then Q st2 (e - 1) (path @ ''1'') k hi st' else st' = st2"
      proof (cases "k \<le> hi")
        case True
        with r have "constructTrie r st2 (e - 1) (path @ ''1'') k hi = Inr st'"
          by (simp add: \<open>r = reps\<close>)
        from "1.IH"(2) [OF False inner' refl run_l True this \<open>r = reps\<close>
            right [OF False pre inner ql True]]
        show ?thesis using True by simp
      next
        case False
        with r show ?thesis by simp
      qed
      from join [OF False pre inner ql qr] show ?thesis .
    qed
  qed
  from this [OF assms(1) refl assms(2)] show ?thesis .
qed

subsection \<open>What one step stores\<close>

lemma andThen_InrE:
  assumes "andThen m f = Inr y"
  obtains x where "m = Inr x" and "f x = Inr y"
  using assms by (auto simp: andThen_Inr)

lemma inner_step_Inr:
  assumes "inner_step reps st e path lo hi = Inr (k, st1)"
  obtains s lm where "0 \<le> e" and "e \<le> 63"
    and "find_split reps (2 ^ nat e) lo hi lo
           \<lparr>scanned = representativeValues st, splitIndex = hi + 1,
            leftMax = None, rightMin = None, foundSplit = False\<rparr> = Inr s"
    and "(if leftMax s = None \<and> rightMin s = None
          then andThen (ptr_at reps hi) (\<lambda>p. Inr (Some p))
          else Inr (leftMax s)) = Inr lm"
    and "k = splitIndex s"
    and "st1 = st\<lparr>representativeValues := scanned s,
                   lookup := insert_new (lookup st) path (Split lm (rightMin s))\<rparr>"
proof -
  from assms have range: "0 \<le> e" "e \<le> 63"
    by (cases "e < 0 \<or> 63 < e"; simp add: inner_step_def)+
  then have "\<not> (e < 0 \<or> 63 < e)"
    by simp
  with assms [unfolded inner_step_def] have
    "andThen (find_split reps (2 ^ nat e) lo hi lo
           \<lparr>scanned = representativeValues st, splitIndex = hi + 1,
            leftMax = None, rightMin = None, foundSplit = False\<rparr>) (\<lambda>s.
       andThen (if leftMax s = None \<and> rightMin s = None
                 then andThen (ptr_at reps hi) (\<lambda>p. Inr (Some p))
                 else Inr (leftMax s)) (\<lambda>lm.
          Inr (splitIndex s,
               st\<lparr>representativeValues := scanned s,
                  lookup := insert_new (lookup st) path (Split lm (rightMin s))\<rparr>)))
     = Inr (k, st1)"
    by (simp only: if_False)
  then obtain s where scan: "find_split reps (2 ^ nat e) lo hi lo
           \<lparr>scanned = representativeValues st, splitIndex = hi + 1,
            leftMax = None, rightMin = None, foundSplit = False\<rparr> = Inr s"
    and rest: "andThen (if leftMax s = None \<and> rightMin s = None
                 then andThen (ptr_at reps hi) (\<lambda>p. Inr (Some p))
                 else Inr (leftMax s)) (\<lambda>lm.
          Inr (splitIndex s,
               st\<lparr>representativeValues := scanned s,
                  lookup := insert_new (lookup st) path (Split lm (rightMin s))\<rparr>))
         = Inr (k, st1)"
    by (rule andThen_InrE)
  from rest obtain lm where "(if leftMax s = None \<and> rightMin s = None
                 then andThen (ptr_at reps hi) (\<lambda>p. Inr (Some p))
                 else Inr (leftMax s)) = Inr lm"
    and "Inr (splitIndex s,
               st\<lparr>representativeValues := scanned s,
                  lookup := insert_new (lookup st) path (Split lm (rightMin s))\<rparr>)
         = (Inr (k, st1) :: fault + int \<times> build_state)"
    by (rule andThen_InrE)
  with range scan that show thesis
    by simp
qed

lemma inner_step_stores:
  assumes "inner_step reps st e path lo hi = Inr (k, st1)"
  obtains lm rm where "lm \<noteq> None \<or> rm \<noteq> None"
    and "lookup st1 = insert_new (lookup st) path (Split lm rm)"
    and "leafSteps st1 = leafSteps st"
proof -
  obtain s lm where "0 \<le> e" and "e \<le> 63"
    and "find_split reps (2 ^ nat e) lo hi lo
           \<lparr>scanned = representativeValues st, splitIndex = hi + 1,
            leftMax = None, rightMin = None, foundSplit = False\<rparr> = Inr s"
    and lm: "(if leftMax s = None \<and> rightMin s = None
          then andThen (ptr_at reps hi) (\<lambda>p. Inr (Some p))
          else Inr (leftMax s)) = Inr lm"
    and "k = splitIndex s"
    and st1: "st1 = st\<lparr>representativeValues := scanned s,
                   lookup := insert_new (lookup st) path (Split lm (rightMin s))\<rparr>"
    by (rule inner_step_Inr [OF assms])
  have "lm \<noteq> None \<or> rightMin s \<noteq> None"
  proof (cases "leftMax s = None \<and> rightMin s = None")
    case True
    with lm obtain p where "lm = Some p"
      by (auto simp: andThen_Inr)
    then show ?thesis by simp
  next
    case False
    with lm have "lm = leftMax s" by simp
    with False show ?thesis by simp
  qed
  with st1 show thesis
    using that [of lm "rightMin s"] by simp
qed

lemma leaf_step_stores:
  assumes "leaf_step reps st path lo hi = Inr st'"
  obtains p where "lookup st' = insert_new (lookup st) path (Leaf p)"
    and "leafSteps st' = leafSteps st @ [(path, lo, hi, Leaf p)]"
    and "representativeValues st' = representativeValues st"
    and "ptr_at reps hi = Inr p"
proof -
  have "\<not> compare_equal path (length path) 1 ''0''"
    by (simp add: compare_equal_def)
  with assms [unfolded leaf_step_def] have
    "andThen (ptr_at reps hi) (\<lambda>p.
       Inr (st\<lparr>lookup := insert_new (lookup st) path (Leaf p),
               leafSteps := leafSteps st @ [(path, lo, hi, Leaf p)]\<rparr>)) = Inr st'"
    by (simp only: if_False)
  then obtain p where p: "ptr_at reps hi = Inr p"
    and "Inr (st\<lparr>lookup := insert_new (lookup st) path (Leaf p),
               leafSteps := leafSteps st @ [(path, lo, hi, Leaf p)]\<rparr>)
           = (Inr st' :: fault + build_state)"
    by (rule andThen_InrE)
  then have "st' = st\<lparr>lookup := insert_new (lookup st) path (Leaf p),
               leafSteps := leafSteps st @ [(path, lo, hi, Leaf p)]\<rparr>"
    by (simp only: sum.inject)
  with p show thesis
    by (intro that [of p]) simp_all
qed

subsection \<open>Shape of the lookup table\<close>

text \<open>
  \<open>table_ok T d\<close>: the table holds no null pointer and no \<open>Split\<close> without a side, a
  \<open>Leaf\<close> only under a path of length \<open>d + 1\<close>, and with every non-empty path its parent.
\<close>

definition table_ok :: "(string \<rightharpoonup> TrieNode) \<Rightarrow> int \<Rightarrow> bool" where
  "table_ok T d \<longleftrightarrow>
     (\<forall>p n. T p = Some n \<longrightarrow>
        n \<noteq> Nullptr \<and> n \<noteq> Split None None \<and> (\<forall>i. n = Leaf i \<longrightarrow> int (length p) = d + 1)) \<and>
     (\<forall>p. p \<in> dom T \<longrightarrow> p \<noteq> [] \<longrightarrow> butlast p \<in> dom T)"

lemma table_ok_empty: "table_ok Map.empty d"
  by (simp add: table_ok_def)

lemma table_ok_insert_Split:
  assumes "table_ok T d" and "lm \<noteq> None \<or> rm \<noteq> None" and "path \<noteq> [] \<longrightarrow> butlast path \<in> dom T"
  shows "table_ok (insert_new T path (Split lm rm)) d"
  using assms unfolding table_ok_def insert_new_def
  by (auto split: if_splits)

lemma table_ok_insert_Leaf:
  assumes "table_ok T d" and "int (length path) = d + 1"
    and "path \<noteq> [] \<longrightarrow> butlast path \<in> dom T"
  shows "table_ok (insert_new T path (Leaf p)) d"
  using assms unfolding table_ok_def insert_new_def
  by (auto split: if_splits)

lemma dom_insert_new: "dom (insert_new T path n) = insert path (dom T)"
  by (auto simp: insert_new_def)

lemma constructTrie_table_ok:
  assumes "constructTrie reps st e path lo hi = Inr st'"
    and "table_ok (lookup st) d" and "int (length path) + e = d"
    and "path \<noteq> [] \<longrightarrow> butlast path \<in> dom (lookup st)"
  shows "table_ok (lookup st') d \<and> dom (lookup st) \<subseteq> dom (lookup st') \<and> path \<in> dom (lookup st')"
proof (rule constructTrie_rule [OF assms(1),
    where P = "\<lambda>st e path lo hi. table_ok (lookup st) d \<and> int (length path) + e = d \<and>
                 (path \<noteq> [] \<longrightarrow> butlast path \<in> dom (lookup st))"
      and Q = "\<lambda>st e path lo hi st'. table_ok (lookup st') d \<and>
                 dom (lookup st) \<subseteq> dom (lookup st') \<and> path \<in> dom (lookup st')"],
    goal_cases)
  case 1
  from assms(2-4) show ?case by simp
next
  case (2 st path lo hi st')
  obtain p where
    "lookup st' = insert_new (lookup st) path (Leaf p)"
    "leafSteps st' = leafSteps st @ [(path, lo, hi, Leaf p)]"
    "representativeValues st' = representativeValues st"
    "ptr_at reps hi = Inr p"
    by (rule leaf_step_stores [OF 2(2)])
  with 2(1) show ?case
    by (simp add: table_ok_insert_Leaf dom_insert_new subset_insertI)
next
  case (3 st e path lo hi k st1)
  obtain lm rm where
    "lm \<noteq> None \<or> rm \<noteq> None" "lookup st1 = insert_new (lookup st) path (Split lm rm)"
    "leafSteps st1 = leafSteps st"
    by (rule inner_step_stores [OF 3(3)])
  with 3(2) show ?case
    by (simp add: table_ok_insert_Split dom_insert_new)
next
  case (4 st e path lo hi k st1 st2)
  obtain lm rm where
    s: "lm \<noteq> None \<or> rm \<noteq> None" "lookup st1 = insert_new (lookup st) path (Split lm rm)"
    "leafSteps st1 = leafSteps st"
    by (rule inner_step_stores [OF 4(3)])
  with 4(2) have "table_ok (lookup st1) d" and "path \<in> dom (lookup st1)"
    by (simp_all add: table_ok_insert_Split dom_insert_new)
  with 4(4) have "table_ok (lookup st2) d" and "path \<in> dom (lookup st2)"
    by (auto split: if_splits)
  with 4(2) show ?case
    by simp
next
  case (5 st e path lo hi k st1 st2 st3)
  obtain lm rm where
    s: "lm \<noteq> None \<or> rm \<noteq> None" "lookup st1 = insert_new (lookup st) path (Split lm rm)"
    "leafSteps st1 = leafSteps st"
    by (rule inner_step_stores [OF 5(3)])
  with 5(2) have "table_ok (lookup st1) d" and "path \<in> dom (lookup st1)"
    and "dom (lookup st) \<subseteq> dom (lookup st1)"
    by (simp_all add: table_ok_insert_Split dom_insert_new subset_insertI)
  with 5(4) have "table_ok (lookup st2) d" and "path \<in> dom (lookup st2)"
    and "dom (lookup st) \<subseteq> dom (lookup st2)"
    by (auto split: if_splits)
  with 5(5) show ?case
    by (auto split: if_splits)
qed

lemma new_YTrie_Inr:
  assumes "new_YTrie values = Inr t"
  obtains st where "calcDepth values = Inr (m_depth t)"
    and "split values (m_depth t) = Inr (m_representatives t)"
    and "build values (m_depth t) (m_representatives t) = Inr st"
    and "m_lookup t = lookup st"
proof -
  from assms obtain depth reps st where "calcDepth values = Inr depth"
    "split values depth = Inr reps" "build values depth reps = Inr st"
    "t = \<lparr>m_depth = depth, m_representatives = reps, m_lookup = lookup st\<rparr>"
    by (auto simp: new_YTrie_def constructor_body_def andThen_Inr)
  then show thesis
    using that [of st] by simp
qed

lemma new_YTrie_table_ok:
  assumes "new_YTrie values = Inr t"
  shows "table_ok (m_lookup t) (m_depth t)" and "[] \<in> dom (m_lookup t)"
proof -
  from new_YTrie_Inr [OF assms] obtain st where
    b: "build values (m_depth t) (m_representatives t) = Inr st" and l: "m_lookup t = lookup st"
    by blast
  from constructTrie_table_ok [OF b [unfolded build_def], of "m_depth t"]
  show "table_ok (m_lookup t) (m_depth t)" and "[] \<in> dom (m_lookup t)"
    by (simp_all add: l table_ok_empty)
qed

subsection \<open>The node the search stops at\<close>

lemma search_step_best:
  "bestMatchingNode (search_step T bits s) = bestMatchingNode s \<or>
   bestMatchingNode (search_step T bits s) \<in> ran T"
  by (cases "T (substr_to bits (middle_of (lowRange s) (highRange s)))")
    (auto simp: search_step_def Let_def ran_def)

lemma search_loop_best:
  "bestMatchingNode (search_loop T bits s) = bestMatchingNode s \<or>
   bestMatchingNode (search_loop T bits s) \<in> ran T"
proof (induction T bits s rule: search_loop.induct)
  case (1 T bits s)
  show ?case
  proof (cases "lowRange s \<le> highRange s")
    case True
    then have "search_loop T bits s = search_loop T bits (search_step T bits s)"
      by (subst search_loop.simps) simp
    with 1 [OF True] search_step_best [of T bits s] show ?thesis
      by auto
  next
    case False
    then have "search_loop T bits s = s"
      by (subst search_loop.simps) simp
    then show ?thesis by simp
  qed
qed

lemma locate_present_root:
  assumes "m_lookup t [] = Some rootNode" and "locate t limit = Inr (node, t')"
  shows "t' = t" and "node \<in> ran (m_lookup t)"
proof -
  from assms(2) obtain bits where
    "substr_from (to_string 64 limit) (64 - (m_depth t + 1)) = Inr bits"
    by (cases "substr_from (to_string 64 limit) (64 - (m_depth t + 1))")
      (simp_all add: locate_def)
  with assms have r: "t' = t \<and> node = bestMatchingNode (search_loop (m_lookup t) bits
      \<lparr>lowRange = 0, highRange = m_depth t + 1, bestMatchingNode = rootNode\<rparr>)"
    by (auto simp: locate_def index_or_insert_def)
  then show "t' = t" by simp
  from assms(1) have "rootNode \<in> ran (m_lookup t)"
    by (auto simp: ran_def)
  with r search_loop_best [of "m_lookup t" bits
      "\<lparr>lowRange = 0, highRange = m_depth t + 1, bestMatchingNode = rootNode\<rparr>"]
  show "node \<in> ran (m_lookup t)"
    by auto
qed

lemma getPredecessor_present_root:
  assumes "m_lookup t [] = Some rootNode"
  shows "snd (getPredecessor t limit) = t"
proof (cases "locate t limit")
  case (Inl e)
  then show ?thesis by (simp add: getPredecessor_def)
next
  case (Inr r)
  obtain node t' where "r = (node, t')" by (cases r)
  with Inr locate_present_root(1) [OF assms, of limit node t'] show ?thesis
    by (simp add: getPredecessor_def)
qed

text \<open>
  C3. In a table that the constructor has built, every \<open>Split\<close> node has a left maximum or
  a right minimum; and the node at which the search of \<open>getPredecessor\<close> stops is an entry
  of that table, so it is neither a null pointer nor a \<open>Split\<close> without sides: the last
  branch of \<open>getPredecessor\<close>, which returns \<open>LLONG_MAX\<close>, is not taken.
\<close>

theorem split_nodes_have_a_side:
  assumes "new_YTrie values = Inr t"
  shows "(\<forall>p lm rm. m_lookup t p = Some (Split lm rm) \<longrightarrow> lm \<noteq> None \<or> rm \<noteq> None) \<and>
         (\<forall>limit node t'. locate t limit = Inr (node, t') \<longrightarrow>
            node \<noteq> Split None None \<and> node \<noteq> Nullptr)"
proof -
  from new_YTrie_table_ok [OF assms]
  have ok: "table_ok (m_lookup t) (m_depth t)" and "[] \<in> dom (m_lookup t)"
    by simp_all
  then obtain rootNode where rootNode: "m_lookup t [] = Some rootNode"
    by auto
  from ok have entries: "n \<noteq> Split None None \<and> n \<noteq> Nullptr" if "m_lookup t p = Some n" for p n
    using that unfolding table_ok_def by blast
  have "node \<noteq> Split None None \<and> node \<noteq> Nullptr" if "locate t limit = Inr (node, t')"
    for limit node t'
  proof -
    from locate_present_root(2) [OF rootNode that] obtain p where "m_lookup t p = Some node"
      by (auto simp: ran_def)
    then show ?thesis by (rule entries)
  qed
  moreover have "lm \<noteq> None \<or> rm \<noteq> None" if "m_lookup t p = Some (Split lm rm)" for p lm rm
    using entries [OF that] by auto
  ultimately show ?thesis
    by blast
qed

theorem split_nodes_have_a_side_witness:
  "new_YTrie scenario_keys = Inr scenario \<and>
   m_lookup scenario ''10'' = Some (Split None (Some 1)) \<and>
   locate scenario 34 = Inr (Split None (Some 1), scenario)"
  using split_nodes_have_a_side [OF scenario_built]
  by (simp add: scenario_built) (simp add: scenario_query_simps)

text \<open>
  C8. On an index that the constructor has built, \<open>getPredecessor\<close> returns the structure
  as it received it: the only operation that could write, \<open>lookup_[""]\<close>, finds the rootNode.
  Hence a second identical call starts from the same structure and gives the same result.
\<close>

theorem getPredecessor_changes_nothing:
  assumes "new_YTrie values = Inr t"
  shows "snd (getPredecessor t limit) = t \<and>
         fst (getPredecessor (snd (getPredecessor t limit)) limit) = fst (getPredecessor t limit)"
proof -
  from new_YTrie_table_ok(2) [OF assms] obtain rootNode where "m_lookup t [] = Some rootNode"
    by auto
  from getPredecessor_present_root [OF this] show ?thesis
    by simp
qed

theorem getPredecessor_changes_nothing_witness:
  "new_YTrie scenario_keys = Inr scenario \<and>
   snd (getPredecessor scenario 34) = scenario \<and>
   fst (getPredecessor (snd (getPredecessor scenario 34)) 34) = Inr 33"
  using getPredecessor_changes_nothing [OF scenario_built, of 34]
  by (simp add: scenario_built scenario_34)

subsection \<open>Values of the representatives\<close>

lemma last_block:
  assumes "0 < d" and "j < (length vs + d - 1) div d"
  shows "last (block d vs j) = vs ! (min ((j + 1) * d) (length vs) - 1)"
proof (cases "(j + 1) * d \<le> length vs")
  case True
  with block_full(2) [OF True assms(1)] show ?thesis
    by (simp add: min_absorb1)
next
  case False
  have start: "j * d < length vs"
    using below_ceil [OF assms] .
  have "(j + 1) * d = j * d + d"
    by simp
  with False assms(1) have "length vs - j * d < d"
    by linarith
  then have "block d vs j = drop (j * d) vs"
    by (simp add: block_def)
  moreover have "last (drop (j * d) vs) = last vs"
    using start by (rule last_drop)
  moreover have "vs \<noteq> []"
    using start by auto
  ultimately show ?thesis
    using False by (simp add: last_conv_nth min_absorb2)
qed

lemma chain_values_increase:
  assumes "sorted_wrt (<) vs" and "0 < d" and "j + 1 < (length vs + d - 1) div d"
  shows "last (block d vs j) < last (block d vs (j + 1))"
proof -
  have here: "(j + 1) * d < length vs"
    using below_ceil [OF assms(2,3)] .
  have pos: "0 < (j + 1) * d"
    using assms(2) by simp
  have "(j + 1 + 1) * d = (j + 1) * d + d"
    by simp
  with here pos assms(2)
  have "(j + 1) * d - 1 < min ((j + 1 + 1) * d) (length vs) - 1"
    and "min ((j + 1 + 1) * d) (length vs) - 1 < length vs"
    by linarith+
  with assms(1) have "vs ! ((j + 1) * d - 1) < vs ! (min ((j + 1 + 1) * d) (length vs) - 1)"
    by (simp add: sorted_wrt_nth_less)
  moreover have "j < (length vs + d - 1) div d"
    using assms(3) by simp
  moreover have "min ((j + 1) * d) (length vs) = (j + 1) * d"
    using here by simp
  ultimately show ?thesis
    using last_block [OF assms(2), of j vs] last_block [OF assms(2,3)]
    by simp
qed

text \<open>
  C6. After a construction that succeeds on strictly ascending keys: along every \<open>next\<close>
  link the value of the representative grows; a \<open>Leaf\<close> is stored only under a path of
  length \<open>depth_ + 1\<close>; with every non-empty path its parent, the path without its last
  bit, is present; and the empty path is present.
\<close>

theorem structure_invariants:
  assumes "sorted_wrt (<) values" and "new_YTrie values = Inr t"
  shows "(\<forall>i j. i < length (m_representatives t) \<and> next (m_representatives t ! i) = Some j \<longrightarrow>
            j < length (m_representatives t) \<and>
            getValue (m_representatives t ! i) < getValue (m_representatives t ! j)) \<and>
         (\<forall>p i. m_lookup t p = Some (Leaf i) \<longrightarrow> int (length p) = m_depth t + 1) \<and>
         (\<forall>p. p \<in> dom (m_lookup t) \<and> p \<noteq> [] \<longrightarrow> butlast p \<in> dom (m_lookup t)) \<and>
         [] \<in> dom (m_lookup t)"
proof -
  define d where "d = nat (m_depth t)"
  define c where "c = (length values + d - 1) div d"
  obtain st where depth: "calcDepth values = Inr (m_depth t)"
    and split: "split values (m_depth t) = Inr (m_representatives t)"
    and "build values (m_depth t) (m_representatives t) = Inr st"
    and "m_lookup t = lookup st"
    by (rule new_YTrie_Inr [OF assms(2)])
  from calcDepth_Inr [OF depth] split_Inr [OF _ _ split]
  have d: "0 < d" and reps: "m_representatives t = chain d values c"
    by (simp_all add: d_def c_def)
  have links: "j < length (m_representatives t) \<and>
      getValue (m_representatives t ! i) < getValue (m_representatives t ! j)"
    if "i < length (m_representatives t)" and "next (m_representatives t ! i) = Some j" for i j
  proof -
    from that have i: "i < c" and j: "j = i + 1" "i + 1 < c"
      by (auto simp: reps linked_def split: if_splits)
    with chain_values_increase [OF assms(1) d, of i] show ?thesis
      by (simp add: reps linked_def c_def)
  qed
  from new_YTrie_table_ok [OF assms(2)]
  have ok: "table_ok (m_lookup t) (m_depth t)" and present: "[] \<in> dom (m_lookup t)"
    by simp_all
  from ok have leaves: "int (length p) = m_depth t + 1" if "m_lookup t p = Some (Leaf i)" for p i
    using that unfolding table_ok_def by blast
  from ok have parents: "butlast p \<in> dom (m_lookup t)" if "p \<in> dom (m_lookup t)" "p \<noteq> []" for p
    using that unfolding table_ok_def by blast
  from links leaves parents present show ?thesis
    by blast
qed

theorem structure_invariants_witness:
  "sorted_wrt (<) scenario_keys \<and> new_YTrie scenario_keys = Inr scenario \<and>
   next (m_representatives scenario ! 0) = Some 1 \<and>
   getValue (m_representatives scenario ! 0) < getValue (m_representatives scenario ! 1) \<and>
   m_lookup scenario ''010100'' = Some (Leaf 0) \<and>
   int (length ''010100'') = m_depth scenario + 1 \<and>
   butlast ''010100'' \<in> dom (m_lookup scenario) \<and>
   [] \<in> dom (m_lookup scenario)"
proof -
  have s: "sorted_wrt (<) scenario_keys"
    by (simp add: scenario_keys_def)
  from structure_invariants [OF s scenario_built] s show ?thesis
    by (simp add: scenario_built)
      (simp add: scenario_def scenario_representatives_def scenario_lookup_def)
qed

section \<open>Paths and numbers\<close>

definition digit :: "nat \<Rightarrow> char" where
  "digit b = (if b mod 2 = 1 then CHR ''1'' else CHR ''0'')"

lemma to_string_Suc_digit: "to_string (Suc n) v = digit (v div 2 ^ n) # to_string n v"
  by (simp add: digit_def)

lemma length_to_string [simp]: "length (to_string n v) = n"
  by (induction n) simp_all

lemma digit_eq_iff: "digit a = digit b \<longleftrightarrow> a mod 2 = b mod 2"
  by (simp add: digit_def)

lemma to_string_split: "to_string (L + k) v = to_string L (v div 2 ^ k) @ to_string k v"
proof (induction L)
  case 0
  show ?case by simp
next
  case (Suc L)
  have "v div 2 ^ (L + k) = v div (2 ^ k * 2 ^ L)"
    by (simp add: power_add mult.commute)
  also have "\<dots> = v div 2 ^ k div 2 ^ L"
    by (rule div_mult2_eq)
  finally have "v div 2 ^ (L + k) = v div 2 ^ k div 2 ^ L" .
  with Suc show ?case
    by simp
qed

lemma to_string_snoc: "to_string (Suc L) v = to_string L (v div 2) @ [digit v]"
  using to_string_split [of L 1 v] by (simp add: digit_def)

lemma take_to_string:
  assumes "L \<le> n"
  shows "take L (to_string n v) = to_string L (v div 2 ^ (n - L))"
  using to_string_split [of L "n - L" v] assms by simp

lemma drop_to_string:
  assumes "k \<le> n"
  shows "drop (n - k) (to_string n v) = to_string k v"
  using to_string_split [of "n - k" k v] assms by simp

lemma to_string_eq_iff: "to_string n a = to_string n b \<longleftrightarrow> a mod 2 ^ n = b mod 2 ^ n"
proof (induction n arbitrary: a b)
  case 0
  show ?case by simp
next
  case (Suc n)
  have split: "x mod 2 ^ Suc n = 2 * (x div 2 mod 2 ^ n) + x mod 2" for x :: nat
    by (simp add: mod_mult2_eq)
  have "to_string (Suc n) a = to_string (Suc n) b \<longleftrightarrow>
          (a div 2) mod 2 ^ n = (b div 2) mod 2 ^ n \<and> a mod 2 = b mod 2"
    by (simp add: to_string_snoc Suc digit_eq_iff del: to_string.simps)
  also have "\<dots> \<longleftrightarrow> a mod 2 ^ Suc n = b mod 2 ^ Suc n"
  proof -
    have "(x = y \<and> r = s) \<longleftrightarrow> (2 * x + r = 2 * y + s)" if "r < 2" "s < 2"
      for x y r s :: nat
      using that by presburger
    from this [of "a mod 2" "b mod 2" "a div 2 mod 2 ^ n" "b div 2 mod 2 ^ n"]
    show ?thesis
      unfolding split [of a] split [of b] by simp
  qed
  finally show ?case .
qed

lemma to_string_inject:
  assumes "to_string L q = to_string L' q'" and "q < 2 ^ L" and "q' < 2 ^ L'"
  shows "L = L'" and "q = q'"
proof -
  from assms(1) have "length (to_string L q) = length (to_string L' q')"
    by simp
  then show "L = L'" by simp
  with assms show "q = q'"
    by (simp add: to_string_eq_iff)
qed

lemma to_string_append_0: "to_string L q @ ''0'' = to_string (Suc L) (2 * q)"
  by (simp add: to_string_snoc digit_def del: to_string.simps)

lemma to_string_append_1: "to_string L q @ ''1'' = to_string (Suc L) (2 * q + 1)"
  by (simp add: to_string_snoc digit_def del: to_string.simps)

section \<open>The scan of an inner step\<close>

text \<open>\<open>strip border k b xs\<close> is \<open>xs\<close> with \<open>border\<close> taken off the entries from position
  \<open>k\<close> up to, not including, position \<open>b\<close>.\<close>

definition strip :: "nat \<Rightarrow> nat \<Rightarrow> nat \<Rightarrow> nat list \<Rightarrow> nat list" where
  "strip border k b xs =
     map (\<lambda>j. if k \<le> j \<and> j < b then xs ! j - border else xs ! j) [0..<length xs]"

lemma length_strip [simp]: "length (strip border k b xs) = length xs"
  by (simp add: strip_def)

lemma nth_strip:
  "j < length xs \<Longrightarrow>
     strip border k b xs ! j = (if k \<le> j \<and> j < b then xs ! j - border else xs ! j)"
  by (simp add: strip_def)

lemma strip_nothing: "b \<le> k \<Longrightarrow> strip border k b xs = xs"
  by (rule nth_equalityI) (simp_all add: nth_strip)

lemma strip_step:
  assumes "k < b" and "b \<le> length xs"
  shows "strip border (Suc k) b (xs[k := xs ! k - border]) = strip border k b xs"
proof (rule nth_equalityI)
  show "length (strip border (Suc k) b (xs[k := xs ! k - border])) = length (strip border k b xs)"
    by simp
next
  fix j assume "j < length (strip border (Suc k) b (xs[k := xs ! k - border]))"
  then have j: "j < length xs" by simp
  show "strip border (Suc k) b (xs[k := xs ! k - border]) ! j = strip border k b xs ! j"
  proof (cases "j = k")
    case True
    with assms j show ?thesis by (simp add: nth_strip)
  next
    case False
    with assms j show ?thesis by (auto simp: nth_strip)
  qed
qed

lemma find_split_done:
  assumes "hi < i"
  shows "find_split reps border lo hi i s = Inr s"
  using assms by (subst find_split.simps) simp

lemma find_split_found:
  assumes "foundSplit s" and "i \<le> b" and "b \<le> length (scanned s)"
    and "\<forall>j. i \<le> j \<and> j < b \<longrightarrow> border \<le> scanned s ! j"
  shows "find_split reps border lo (int b - 1) (int i) s
           = Inr (s\<lparr>scanned := strip border i b (scanned s)\<rparr>)"
  using assms
proof (induction "b - i" arbitrary: i s)
  case 0
  then have "i = b" by simp
  then show ?case
    by (simp add: find_split_done strip_nothing)
next
  case (Suc n)
  then have i: "i < b" "i < length (scanned s)" and here: "border \<le> scanned s ! i"
    by simp_all
  let ?s = "s\<lparr>scanned := (scanned s)[nat (int i) := scanned s ! i - border]\<rparr>"
  have c: "int i \<le> int b - 1"
    using i by simp
  have unfold: "find_split reps border lo (int b - 1) (int i) s
      = find_split reps border lo (int b - 1) (int i + 1) ?s"
    by (subst find_split.simps)
      (simp only: c if_True vec_at_nat [OF i(2)] andThen_simps here Suc.prems(1)
        not_True_eq_False if_False)
  have "find_split reps border lo (int b - 1) (int (Suc i)) ?s
      = Inr (?s\<lparr>scanned := strip border (Suc i) b (scanned ?s)\<rparr>)"
  proof (rule Suc.hyps(1))
    show "n = b - Suc i" using Suc.hyps(2) by simp
    show "foundSplit ?s" using Suc.prems(1) by simp
    show "Suc i \<le> b" using i by simp
    show "b \<le> length (scanned ?s)" using Suc.prems(3) by simp
    show "\<forall>j. Suc i \<le> j \<and> j < b \<longrightarrow> border \<le> scanned ?s ! j"
      using Suc.prems(4) by simp
  qed
  moreover have "int i + 1 = int (Suc i)"
    by simp
  ultimately have "find_split reps border lo (int b - 1) (int i) s
      = Inr (?s\<lparr>scanned := strip border (Suc i) b (scanned ?s)\<rparr>)"
    unfolding unfold by (simp only:)
  then show ?case
    using strip_step [OF i(1) Suc.prems(3), of border] by simp
qed

lemma find_split_search:
  assumes "\<not> foundSplit s" and "a \<le> i" and "i \<le> k" and "k \<le> b"
    and "b \<le> length (scanned s)" and "b \<le> length reps"
    and "\<forall>j. i \<le> j \<and> j < k \<longrightarrow> scanned s ! j < border"
    and "\<forall>j. k \<le> j \<and> j < b \<longrightarrow> border \<le> scanned s ! j"
  shows "find_split reps border (int a) (int b - 1) (int i) s
           = Inr (if k < b
                  then s\<lparr>scanned := strip border k b (scanned s), splitIndex := int k,
                         foundSplit := True,
                         leftMax := (if k \<noteq> a then Some (k - 1) else leftMax s),
                         rightMin := Some k\<rparr>
                  else s)"
  using assms
proof (induction "k - i" arbitrary: i)
  case 0
  then have ik: "i = k" by simp
  show ?case
  proof (cases "k < b")
    case False
    with 0 ik have "int b - 1 < int i" by simp
    with False show ?thesis
      by (simp add: find_split_done)
  next
    case True
    with 0 have here: "border \<le> scanned s ! k" and k: "k < length (scanned s)" "k < length reps"
      by simp_all
    define lm where "lm = (if k \<noteq> a then Some (k - 1) else leftMax s)"
    have left: "(if int k \<noteq> int a
                 then andThen (ptr_at reps (int k - 1)) (\<lambda>p. Inr (Some p))
                 else Inr (leftMax s)) = Inr lm"
    proof (cases "k = a")
      case True
      then show ?thesis by (simp add: lm_def)
    next
      case False
      with 0 ik have "0 < k" by simp
      then have e: "int k - 1 = int (k - 1)" by simp
      have "k - 1 < length reps" using k by simp
      then have p: "ptr_at reps (int k - 1) = Inr (k - 1)"
        unfolding e by (rule ptr_at_nat)
      from False have ne: "int k \<noteq> int a" by simp
      show ?thesis
        by (simp only: ne p False lm_def andThen_simps if_True not_False_eq_True)
    qed
    let ?s = "s\<lparr>splitIndex := int k, foundSplit := True, leftMax := lm, rightMin := Some k\<rparr>"
    let ?t = "?s\<lparr>scanned := (scanned ?s)[nat (int k) := scanned s ! k - border]\<rparr>"
    have c: "int k \<le> int b - 1"
      using True by simp
    have unfold: "find_split reps border (int a) (int b - 1) (int k) s
      = find_split reps border (int a) (int b - 1) (int k + 1) ?t"
      by (subst find_split.simps)
        (simp only: c if_True vec_at_nat [OF k(1)] andThen_simps here 0(2) not_False_eq_True
          left ptr_at_nat [OF k(2)])
    have "find_split reps border (int a) (int b - 1) (int (Suc k)) ?t
      = Inr (?t\<lparr>scanned := strip border (Suc k) b (scanned ?t)\<rparr>)"
    proof (rule find_split_found)
      show "foundSplit ?t" by simp
      show "Suc k \<le> b" using True by simp
      show "b \<le> length (scanned ?t)" using 0(6) by simp
      show "\<forall>j. Suc k \<le> j \<and> j < b \<longrightarrow> border \<le> scanned ?t ! j"
        using 0(9) by simp
    qed
    moreover have "int k + 1 = int (Suc k)"
      by simp
    ultimately have "find_split reps border (int a) (int b - 1) (int k) s
      = Inr (?t\<lparr>scanned := strip border (Suc k) b (scanned ?t)\<rparr>)"
      unfolding unfold by (simp only:)
    then show ?thesis
      unfolding ik using strip_step [OF True 0(6), of border] True
      by (simp add: lm_def)
  qed
next
  case (Suc n)
  then have i: "i < k" "i < b" "i < length (scanned s)" and here: "scanned s ! i < border"
    by simp_all
  have c: "int i \<le> int b - 1"
    using i by simp
  from here have nc: "\<not> border \<le> scanned s ! i"
    by simp
  have unfold: "find_split reps border (int a) (int b - 1) (int i) s
      = find_split reps border (int a) (int b - 1) (int i + 1) s"
    by (subst find_split.simps)
      (simp only: c if_True vec_at_nat [OF i(3)] andThen_simps nc if_False)
  have "find_split reps border (int a) (int b - 1) (int (Suc i)) s
           = Inr (if k < b
                  then s\<lparr>scanned := strip border k b (scanned s), splitIndex := int k,
                         foundSplit := True,
                         leftMax := (if k \<noteq> a then Some (k - 1) else leftMax s),
                         rightMin := Some k\<rparr>
                  else s)"
  proof (rule Suc.hyps(1))
    show "n = k - Suc i" using Suc.hyps(2) by simp
    show "\<not> foundSplit s" by (rule Suc.prems(1))
    show "a \<le> Suc i" using Suc.prems(2) by simp
    show "Suc i \<le> k" using i by simp
    show "k \<le> b" by (rule Suc.prems(4))
    show "b \<le> length (scanned s)" by (rule Suc.prems(5))
    show "b \<le> length reps" by (rule Suc.prems(6))
    show "\<forall>j. Suc i \<le> j \<and> j < k \<longrightarrow> scanned s ! j < border"
      using Suc.prems(7) by simp
    show "\<forall>j. k \<le> j \<and> j < b \<longrightarrow> border \<le> scanned s ! j"
      by (rule Suc.prems(8))
  qed
  moreover have "int i + 1 = int (Suc i)"
    by simp
  ultimately show ?case
    unfolding unfold by (simp only:)
qed

lemma inner_step_window:
  assumes "0 \<le> e" and "e \<le> 63" and "a \<le> k" and "k \<le> b" and "a < b"
    and "b \<le> length (representativeValues st)" and "b \<le> length reps"
    and "\<forall>j. a \<le> j \<and> j < k \<longrightarrow> representativeValues st ! j < 2 ^ nat e"
    and "\<forall>j. k \<le> j \<and> j < b \<longrightarrow> 2 ^ nat e \<le> representativeValues st ! j"
  shows "inner_step reps st e path (int a) (int b - 1)
           = Inr (int k,
                  st\<lparr>representativeValues := strip (2 ^ nat e) k b (representativeValues st),
                     lookup := insert_new (lookup st) path
                       (Split (if a < k then Some (k - 1) else None)
                              (if k < b then Some k else None))\<rparr>)"
proof -
  let ?s = "\<lparr>scanned = representativeValues st, splitIndex = int b - 1 + 1,
            leftMax = None, rightMin = None, foundSplit = False\<rparr>"
  have scan: "find_split reps (2 ^ nat e) (int a) (int b - 1) (int a) ?s
           = Inr (if k < b
                  then ?s\<lparr>scanned := strip (2 ^ nat e) k b (scanned ?s), splitIndex := int k,
                         foundSplit := True,
                         leftMax := (if k \<noteq> a then Some (k - 1) else leftMax ?s),
                         rightMin := Some k\<rparr>
                  else ?s)"
    using assms by (intro find_split_search) simp_all
  have range: "\<not> (e < 0 \<or> 63 < e)"
    using assms(1,2) by simp
  show ?thesis
  proof (cases "k < b")
    case True
    with scan have scan': "find_split reps (2 ^ nat e) (int a) (int b - 1) (int a) ?s
           = Inr (?s\<lparr>scanned := strip (2 ^ nat e) k b (scanned ?s), splitIndex := int k,
                         foundSplit := True,
                         leftMax := (if k \<noteq> a then Some (k - 1) else leftMax ?s),
                         rightMin := Some k\<rparr>)"
      by (simp only: if_True)
    show ?thesis
      unfolding inner_step_def
      using True assms(3)
      by (simp only: range if_False scan' andThen_simps) auto
  next
    case False
    with assms have kb: "k = b" by simp
    from scan False have scan': "find_split reps (2 ^ nat e) (int a) (int b - 1) (int a) ?s = Inr ?s"
      by (simp only: if_False)
    have "int b - 1 = int (b - 1)" and "b - 1 < length reps"
      using assms(5,7) by simp_all
    then have p: "ptr_at reps (int b - 1) = Inr (b - 1)"
      by (simp only: ptr_at_nat)
    show ?thesis
      unfolding inner_step_def
      using assms(5)
      by (simp only: range if_False scan' andThen_simps) (simp add: p kb strip_nothing)
  qed
qed

section \<open>The table that the builder makes\<close>

text \<open>
  The values of the representatives are \<open>rv\<close>, all below \<open>2 ^ w\<close>. A node of the trie is
  named by the length \<open>L\<close> of its path and the number \<open>q\<close> that the path spells in binary;
  its members are the representatives whose first \<open>L\<close> of \<open>w\<close> bits spell \<open>q\<close>.
\<close>

definition members :: "nat list \<Rightarrow> nat \<Rightarrow> nat \<Rightarrow> nat \<Rightarrow> nat set" where
  "members rv w L q = {i. i < length rv \<and> rv ! i div 2 ^ (w - L) = q}"

definition node_at :: "nat list \<Rightarrow> nat \<Rightarrow> nat \<Rightarrow> nat \<Rightarrow> TrieNode" where
  "node_at rv w L q =
     (if L = w then Leaf (Max (members rv w L q))
      else Split
        (if members rv w (Suc L) (2 * q) = {} then None
         else Some (Max (members rv w (Suc L) (2 * q))))
        (if members rv w (Suc L) (2 * q + 1) = {} then None
         else Some (Min (members rv w (Suc L) (2 * q + 1)))))"

definition entry_at :: "nat list \<Rightarrow> nat \<Rightarrow> nat \<Rightarrow> nat \<Rightarrow> TrieNode option" where
  "entry_at rv w L q = (if members rv w L q = {} then None else Some (node_at rv w L q))"

definition below :: "nat \<Rightarrow> nat \<Rightarrow> nat \<Rightarrow> nat \<Rightarrow> bool" where
  "below L q L' q' \<longleftrightarrow> L \<le> L' \<and> q' div 2 ^ (L' - L) = q"

lemma half_split:
  fixes x :: nat
  shows "x mod 2 ^ Suc e = 2 ^ e * (x div 2 ^ e mod 2) + x mod 2 ^ e"
    and "x div 2 ^ Suc e = x div 2 ^ e div 2"
proof -
  have p: "(2::nat) ^ Suc e = 2 ^ e * 2"
    by simp
  show "x mod 2 ^ Suc e = 2 ^ e * (x div 2 ^ e mod 2) + x mod 2 ^ e"
    unfolding p by (rule mod_mult2_eq)
  show "x div 2 ^ Suc e = x div 2 ^ e div 2"
    unfolding p by (rule div_mult2_eq)
qed

lemma bit_cases:
  fixes y :: nat
  shows "y mod 2 = 0 \<or> y mod 2 = 1"
  by presburger

lemma bit_clear_iff:
  fixes x :: nat
  shows "x mod 2 ^ Suc e < 2 ^ e \<longleftrightarrow> x div 2 ^ e mod 2 = 0"
proof -
  have "x mod 2 ^ e < 2 ^ e"
    by simp
  with bit_cases [of "x div 2 ^ e"] show ?thesis
    unfolding half_split(1) by auto
qed

lemma bit_set_iff:
  fixes x :: nat
  shows "2 ^ e \<le> x mod 2 ^ Suc e \<longleftrightarrow> x div 2 ^ e mod 2 = 1"
  using bit_clear_iff [of x e] bit_cases [of "x div 2 ^ e"] by auto

lemma child_0_iff:
  fixes x :: nat
  shows "x div 2 ^ e = 2 * q \<longleftrightarrow> x div 2 ^ Suc e = q \<and> x mod 2 ^ Suc e < 2 ^ e"
proof -
  have "y = 2 * q \<longleftrightarrow> y div 2 = q \<and> y mod 2 = 0" for y :: nat
    by presburger
  from this [of "x div 2 ^ e"] show ?thesis
    unfolding bit_clear_iff half_split(2) .
qed

lemma child_1_iff:
  fixes x :: nat
  shows "x div 2 ^ e = 2 * q + 1 \<longleftrightarrow> x div 2 ^ Suc e = q \<and> 2 ^ e \<le> x mod 2 ^ Suc e"
proof -
  have "y = 2 * q + 1 \<longleftrightarrow> y div 2 = q \<and> y mod 2 = 1" for y :: nat
    by presburger
  from this [of "x div 2 ^ e"] show ?thesis
    unfolding bit_set_iff half_split(2) .
qed

lemma stripped_0:
  fixes x :: nat
  assumes "x mod 2 ^ Suc e < 2 ^ e"
  shows "x mod 2 ^ e = x mod 2 ^ Suc e"
proof -
  from assms have "x div 2 ^ e mod 2 = 0"
    by (simp only: bit_clear_iff)
  then show ?thesis
    unfolding half_split(1) by simp
qed

lemma stripped_1:
  fixes x :: nat
  assumes "2 ^ e \<le> x mod 2 ^ Suc e"
  shows "x mod 2 ^ e = x mod 2 ^ Suc e - 2 ^ e"
proof -
  from assms have "x div 2 ^ e mod 2 = 1"
    by (simp only: bit_set_iff)
  then show ?thesis
    unfolding half_split(1) by simp
qed

lemma same_block_mod_less:
  fixes x y c :: nat
  assumes "x < y" and "x div c = y div c"
  shows "x mod c < y mod c"
proof -
  have "x = c * (x div c) + x mod c" and "y = c * (y div c) + y mod c"
    by simp_all
  with assms show ?thesis
    by (metis nat_add_left_cancel_less)
qed

lemma div_less_imp_less:
  fixes x y c :: nat
  assumes "x div c < y div c"
  shows "x < y"
  using assms by (meson div_le_mono not_le)

subsection \<open>Members of a node and of its children\<close>

definition good :: "nat list \<Rightarrow> nat \<Rightarrow> bool" where
  "good rv w \<longleftrightarrow> sorted_wrt (<) rv \<and> (\<forall>i < length rv. rv ! i < 2 ^ w)"

lemma good_less: "good rv w \<Longrightarrow> i < j \<Longrightarrow> j < length rv \<Longrightarrow> rv ! i < rv ! j"
  by (simp add: good_def sorted_wrt_nth_less)

lemma good_le: "good rv w \<Longrightarrow> i \<le> j \<Longrightarrow> j < length rv \<Longrightarrow> rv ! i \<le> rv ! j"
  using good_less [of rv w i j] by (cases "i = j") simp_all

lemma members_bound: "i \<in> members rv w L q \<Longrightarrow> i < length rv"
  by (simp add: members_def)

lemma finite_members [simp]: "finite (members rv w L q)"
  by (rule finite_subset [of _ "{..<length rv}"]) (auto simp: members_def)

lemma members_root:
  assumes "good rv w"
  shows "members rv w 0 0 = {0..<length rv}"
  using assms by (auto simp: members_def good_def)

lemma members_leaf_unique:
  assumes "good rv w" and "i \<in> members rv w w q" and "j \<in> members rv w w q"
  shows "i = j"
proof (rule ccontr)
  assume "i \<noteq> j"
  moreover from assms(2,3) have "rv ! i = rv ! j" "i < length rv" "j < length rv"
    by (simp_all add: members_def)
  ultimately show False
    using good_less [OF assms(1), of i j] good_less [OF assms(1), of j i]
    by (cases "i < j") simp_all
qed

lemma below_refl: "below L q L q"
  by (simp add: below_def)

lemma below_members:
  assumes "below L q L' q'" and "L' \<le> w"
  shows "members rv w L' q' \<subseteq> members rv w L q"
proof
  fix i assume "i \<in> members rv w L' q'"
  then have i: "i < length rv" and at: "rv ! i div 2 ^ (w - L') = q'"
    by (simp_all add: members_def)
  from assms have "w - L = (w - L') + (L' - L)" and q: "q' div 2 ^ (L' - L) = q"
    by (simp_all add: below_def)
  then have "rv ! i div 2 ^ (w - L) = rv ! i div (2 ^ (w - L') * 2 ^ (L' - L))"
    by (simp only: power_add)
  also have "\<dots> = rv ! i div 2 ^ (w - L') div 2 ^ (L' - L)"
    by (rule div_mult2_eq)
  finally show "i \<in> members rv w L q"
    using i at q by (simp add: members_def)
qed

lemma below_cases:
  "below L q L' q' \<longleftrightarrow>
     (L' = L \<and> q' = q) \<or> below (Suc L) (2 * q) L' q' \<or> below (Suc L) (2 * q + 1) L' q'"
proof (cases "L < L'")
  case False
  then show ?thesis
    by (auto simp: below_def)
next
  case True
  then have "L' - L = Suc (L' - Suc L)"
    by simp
  then have "q' div 2 ^ (L' - L) = q' div 2 ^ (L' - Suc L) div 2"
    by (simp only: half_split(2))
  moreover have "y div 2 = q \<longleftrightarrow> y = 2 * q \<or> y = 2 * q + 1" for y :: nat
    by presburger
  ultimately show ?thesis
    using True by (auto simp: below_def)
qed

lemma below_not_both:
  "below (Suc L) (2 * q) L' q' \<Longrightarrow> \<not> below (Suc L) (2 * q + 1) L' q'"
  by (simp add: below_def)

lemma below_child_length: "below (Suc L) c L' q' \<Longrightarrow> L < L'"
  by (simp add: below_def)

lemma below_all: "q' < 2 ^ L' \<Longrightarrow> below 0 0 L' q'"
  by (simp add: below_def)

lemma below_leaf: "L' \<le> w \<Longrightarrow> below w q L' q' \<longleftrightarrow> L' = w \<and> q' = q"
  by (auto simp: below_def)

text \<open>In a window of sorted values that agree above bit \<open>e\<close>, the values with bit \<open>e\<close>
  clear come first: there is a threshold \<open>k\<close>.\<close>

lemma threshold:
  assumes "good rv w" and "members rv w L q = {a..<b}" and "a < b" and "w - L = Suc e"
  obtains k where "a \<le> k" and "k \<le> b"
    and "\<forall>j. a \<le> j \<and> j < k \<longrightarrow> rv ! j mod 2 ^ Suc e < 2 ^ e"
    and "\<forall>j. k \<le> j \<and> j < b \<longrightarrow> 2 ^ e \<le> rv ! j mod 2 ^ Suc e"
proof -
  define P where "P j \<longleftrightarrow> b \<le> j \<or> (a \<le> j \<and> 2 ^ e \<le> rv ! j mod 2 ^ Suc e)" for j
  define k where "k = (LEAST j. P j)"
  have "P b" by (simp add: P_def)
  then have Pk: "P k" and kb: "k \<le> b"
    unfolding k_def by (rule LeastI, rule Least_le)
  from Pk assms(3) have ak: "a \<le> k"
    by (auto simp: P_def)
  have before: "rv ! j mod 2 ^ Suc e < 2 ^ e" if "a \<le> j" "j < k" for j
  proof -
    from that(2) have "\<not> P j"
      unfolding k_def by (rule not_less_Least)
    with that(1) kb that(2) show ?thesis
      by (simp add: P_def)
  qed
  have after: "2 ^ e \<le> rv ! j mod 2 ^ Suc e" if "k \<le> j" "j < b" for j
  proof -
    from that have "k < b" by simp
    with Pk have first: "2 ^ e \<le> rv ! k mod 2 ^ Suc e"
      by (simp add: P_def)
    from that ak assms(2) \<open>k < b\<close> have "j \<in> members rv w L q" "k \<in> members rv w L q"
      by simp_all
    then have same: "rv ! k div 2 ^ Suc e = rv ! j div 2 ^ Suc e" and j: "j < length rv"
      by (simp_all add: members_def assms(4))
    show ?thesis
    proof (cases "k = j")
      case True
      with first show ?thesis by simp
    next
      case False
      with that have "rv ! k < rv ! j"
        using good_less [OF assms(1), of k j] j by simp
      from same_block_mod_less [OF this same] first show ?thesis
        by simp
    qed
  qed
  from ak kb before after show thesis
    by (intro that [of k]) simp_all
qed

lemma members_children:
  assumes "members rv w L q = {a..<b}" and "w - L = Suc e"
    and "a \<le> k" and "k \<le> b"
    and "\<forall>j. a \<le> j \<and> j < k \<longrightarrow> rv ! j mod 2 ^ Suc e < 2 ^ e"
    and "\<forall>j. k \<le> j \<and> j < b \<longrightarrow> 2 ^ e \<le> rv ! j mod 2 ^ Suc e"
  shows "members rv w (Suc L) (2 * q) = {a..<k}"
    and "members rv w (Suc L) (2 * q + 1) = {k..<b}"
proof -
  from assms(2) have e: "w - Suc L = e"
    by simp
  have in_window: "i < length rv \<and> rv ! i div 2 ^ Suc e = q \<longleftrightarrow> a \<le> i \<and> i < b" for i
  proof -
    have "i \<in> members rv w L q \<longleftrightarrow> i \<in> {a..<b}"
      by (simp only: assms(1))
    then show ?thesis
      by (simp add: members_def assms(2))
  qed
  have "i \<in> members rv w (Suc L) (2 * q) \<longleftrightarrow> i \<in> {a..<k}" for i
  proof -
    have "i \<in> members rv w (Suc L) (2 * q) \<longleftrightarrow>
            (i < length rv \<and> rv ! i div 2 ^ Suc e = q) \<and> rv ! i mod 2 ^ Suc e < 2 ^ e"
      unfolding members_def e child_0_iff by auto
    also have "\<dots> \<longleftrightarrow> (a \<le> i \<and> i < b) \<and> rv ! i mod 2 ^ Suc e < 2 ^ e"
      unfolding in_window ..
    also have "\<dots> \<longleftrightarrow> a \<le> i \<and> i < k"
    proof
      assume l: "(a \<le> i \<and> i < b) \<and> rv ! i mod 2 ^ Suc e < 2 ^ e"
      have "i < k"
      proof (rule ccontr)
        assume "\<not> i < k"
        with l assms(6) have "2 ^ e \<le> rv ! i mod 2 ^ Suc e" by simp
        with l show False by simp
      qed
      with l show "a \<le> i \<and> i < k" by simp
    next
      assume "a \<le> i \<and> i < k"
      with assms(4,5) show "(a \<le> i \<and> i < b) \<and> rv ! i mod 2 ^ Suc e < 2 ^ e" by simp
    qed
    finally show ?thesis by simp
  qed
  then show "members rv w (Suc L) (2 * q) = {a..<k}"
    by blast
  have "i \<in> members rv w (Suc L) (2 * q + 1) \<longleftrightarrow> i \<in> {k..<b}" for i
  proof -
    have "i \<in> members rv w (Suc L) (2 * q + 1) \<longleftrightarrow>
            (i < length rv \<and> rv ! i div 2 ^ Suc e = q) \<and> 2 ^ e \<le> rv ! i mod 2 ^ Suc e"
      unfolding members_def e child_1_iff by auto
    also have "\<dots> \<longleftrightarrow> (a \<le> i \<and> i < b) \<and> 2 ^ e \<le> rv ! i mod 2 ^ Suc e"
      unfolding in_window ..
    also have "\<dots> \<longleftrightarrow> k \<le> i \<and> i < b"
    proof
      assume l: "(a \<le> i \<and> i < b) \<and> 2 ^ e \<le> rv ! i mod 2 ^ Suc e"
      have "k \<le> i"
      proof (rule ccontr)
        assume "\<not> k \<le> i"
        with l assms(5) have "rv ! i mod 2 ^ Suc e < 2 ^ e" by simp
        with l show False by simp
      qed
      with l show "k \<le> i \<and> i < b" by simp
    next
      assume "k \<le> i \<and> i < b"
      with assms(3,6) show "(a \<le> i \<and> i < b) \<and> 2 ^ e \<le> rv ! i mod 2 ^ Suc e" by simp
    qed
    finally show ?thesis by simp
  qed
  then show "members rv w (Suc L) (2 * q + 1) = {k..<b}"
    by blast
qed

subsection \<open>What a call of \<open>constructTrie\<close> assumes and what it establishes\<close>

text \<open>
  \<open>trace_ok\<close>: every leaf step recorded so far had a window of exactly one representative,
  worked on a path of \<open>w\<close> bits, and stored a \<open>Leaf\<close> for that representative, which is
  still the entry of its path.

  \<open>ready\<close>: the state in which the node \<open>(L, q)\<close> is entered with the window from \<open>a\<close> up
  to, not including, \<open>b\<close>: the window holds exactly the members of the node, the scratch
  values of the window are the values with the bits above the node's level stripped, and
  no path below the node is in the table yet.

  \<open>built\<close>: the state in which the call returns: scratch values outside the window are
  as before, and the table has gained exactly the entries of the nodes below \<open>(L, q)\<close>
  that have members.
\<close>

definition trace_ok :: "nat list \<Rightarrow> nat \<Rightarrow> build_state \<Rightarrow> bool" where
  "trace_ok rv w st \<longleftrightarrow>
     (\<forall>p lo hi n. (p, lo, hi, n) \<in> set (leafSteps st) \<longrightarrow>
        lo = hi \<and> 0 \<le> lo \<and> lo < int (length rv) \<and> length p = w \<and> n = Leaf (nat lo) \<and>
        lookup st p = Some n)"

definition ready :: "nat list \<Rightarrow> nat \<Rightarrow> nat \<Rightarrow> nat \<Rightarrow> nat \<Rightarrow> nat \<Rightarrow> build_state \<Rightarrow> bool" where
  "ready rv w L q a b st \<longleftrightarrow>
     L \<le> w \<and> q < 2 ^ L \<and> a < b \<and> members rv w L q = {a..<b} \<and>
     length (representativeValues st) = length rv \<and>
     (\<forall>i. a \<le> i \<and> i < b \<longrightarrow> representativeValues st ! i = rv ! i mod 2 ^ (w - L)) \<and>
     (\<forall>L' q'. L' \<le> w \<and> q' < 2 ^ L' \<and> below L q L' q' \<longrightarrow> lookup st (to_string L' q') = None) \<and>
     trace_ok rv w st"

definition built ::
  "nat list \<Rightarrow> nat \<Rightarrow> nat \<Rightarrow> nat \<Rightarrow> nat \<Rightarrow> nat \<Rightarrow> build_state \<Rightarrow> build_state \<Rightarrow> bool" where
  "built rv w L q a b st st' \<longleftrightarrow>
     length (representativeValues st') = length (representativeValues st) \<and>
     (\<forall>i. \<not> (a \<le> i \<and> i < b) \<longrightarrow> representativeValues st' ! i = representativeValues st ! i) \<and>
     (\<forall>L' q'. L' \<le> w \<and> q' < 2 ^ L' \<longrightarrow>
        lookup st' (to_string L' q')
          = (if below L q L' q' then entry_at rv w L' q' else lookup st (to_string L' q'))) \<and>
     trace_ok rv w st' \<and>
     (\<forall>p n. lookup st p = Some n \<longrightarrow> lookup st' p = Some n)"

lemma readyD:
  assumes "ready rv w L q a b st"
  shows "L \<le> w" and "q < 2 ^ L" and "a < b" and "members rv w L q = {a..<b}"
    and "length (representativeValues st) = length rv"
    and "\<And>i. a \<le> i \<Longrightarrow> i < b \<Longrightarrow> representativeValues st ! i = rv ! i mod 2 ^ (w - L)"
    and "\<And>L' q'. L' \<le> w \<Longrightarrow> q' < 2 ^ L' \<Longrightarrow> below L q L' q'
           \<Longrightarrow> lookup st (to_string L' q') = None"
    and "trace_ok rv w st"
  using assms unfolding ready_def by simp_all

lemma readyI:
  assumes "L \<le> w" and "q < 2 ^ L" and "a < b" and "members rv w L q = {a..<b}"
    and "length (representativeValues st) = length rv"
    and "\<And>i. a \<le> i \<Longrightarrow> i < b \<Longrightarrow> representativeValues st ! i = rv ! i mod 2 ^ (w - L)"
    and "\<And>L' q'. L' \<le> w \<Longrightarrow> q' < 2 ^ L' \<Longrightarrow> below L q L' q'
           \<Longrightarrow> lookup st (to_string L' q') = None"
    and "trace_ok rv w st"
  shows "ready rv w L q a b st"
  using assms unfolding ready_def by simp

lemma builtD:
  assumes "built rv w L q a b st st'"
  shows "length (representativeValues st') = length (representativeValues st)"
    and "\<And>i. \<not> (a \<le> i \<and> i < b) \<Longrightarrow> representativeValues st' ! i = representativeValues st ! i"
    and "\<And>L' q'. L' \<le> w \<Longrightarrow> q' < 2 ^ L' \<Longrightarrow>
        lookup st' (to_string L' q')
          = (if below L q L' q' then entry_at rv w L' q' else lookup st (to_string L' q'))"
    and "trace_ok rv w st'"
    and "\<And>p n. lookup st p = Some n \<Longrightarrow> lookup st' p = Some n"
  using assms unfolding built_def by simp_all

lemma builtI:
  assumes "length (representativeValues st') = length (representativeValues st)"
    and "\<And>i. \<not> (a \<le> i \<and> i < b) \<Longrightarrow> representativeValues st' ! i = representativeValues st ! i"
    and "\<And>L' q'. L' \<le> w \<Longrightarrow> q' < 2 ^ L' \<Longrightarrow>
        lookup st' (to_string L' q')
          = (if below L q L' q' then entry_at rv w L' q' else lookup st (to_string L' q'))"
    and "trace_ok rv w st'"
    and "\<And>p n. lookup st p = Some n \<Longrightarrow> lookup st' p = Some n"
  shows "built rv w L q a b st st'"
  using assms unfolding built_def by simp

lemma insert_new_preserves: "T p = Some n \<Longrightarrow> insert_new T k v p = Some n"
  by (auto simp: insert_new_def)

lemma insert_new_fresh: "T k = None \<Longrightarrow> insert_new T k v = T(k \<mapsto> v)"
  by (simp add: insert_new_def)

lemma ready_window_bound:
  assumes "ready rv w L q a b st"
  shows "b \<le> length rv"
proof -
  from readyD(3,4) [OF assms] have "b - 1 \<in> members rv w L q"
    by simp
  then have "b - 1 < length rv"
    by (rule members_bound)
  with readyD(3) [OF assms] show ?thesis
    by simp
qed

lemma trace_ok_lookup:
  assumes "trace_ok rv w st" and "leafSteps st' = leafSteps st"
    and "\<And>p n. lookup st p = Some n \<Longrightarrow> lookup st' p = Some n"
  shows "trace_ok rv w st'"
  using assms unfolding trace_ok_def by simp

lemma leaf_built:
  assumes "good rv w" and "length reps = length rv" and "ready rv w w q a b st"
  shows "\<exists>st'. constructTrie reps st (- 1) (to_string w q) (int a) (int b - 1) = Inr st' \<and>
               built rv w w q a b st st'"
proof -
  note r = readyD [OF assms(3)]
  have bound: "b \<le> length rv"
    using assms(3) by (rule ready_window_bound)
  from r(3,4) have "a \<in> members rv w w q" "b - 1 \<in> members rv w w q"
    by simp_all
  from members_leaf_unique [OF assms(1) this] r(3) have b: "b = Suc a"
    by simp
  then have "int b - 1 = int a" and "a < length reps"
    using bound assms(2) by simp_all
  then have p: "ptr_at reps (int b - 1) = Inr a"
    by (simp only: ptr_at_nat)
  define st' where "st' = st\<lparr>lookup := insert_new (lookup st) (to_string w q) (Leaf a),
      leafSteps := leafSteps st @ [(to_string w q, int a, int b - 1, Leaf a)]\<rparr>"
  have nc: "\<not> compare_equal (to_string w q) (length (to_string w q)) 1 ''0''"
    by (simp add: compare_equal_def)
  have run: "constructTrie reps st (- 1) (to_string w q) (int a) (int b - 1) = Inr st'"
    unfolding constructTrie_leaf leaf_step_def st'_def
    by (simp only: nc if_False p andThen_simps)
  have fresh: "lookup st (to_string w q) = None"
    using r(1,2) by (intro r(7)) (simp_all add: below_refl)
  then have table: "lookup st' = (lookup st)(to_string w q \<mapsto> Leaf a)"
    by (simp add: st'_def insert_new_fresh)
  have kept: "lookup st' p = Some n" if "lookup st p = Some n" for p n
    using that by (simp add: st'_def insert_new_preserves)
  have "built rv w w q a b st st'"
  proof (rule builtI)
    show "length (representativeValues st') = length (representativeValues st)"
      by (simp add: st'_def)
    show "representativeValues st' ! i = representativeValues st ! i" for i
      by (simp add: st'_def)
    show "lookup st' (to_string L' q')
          = (if below w q L' q' then entry_at rv w L' q' else lookup st (to_string L' q'))"
      if "L' \<le> w" and "q' < 2 ^ L'" for L' q'
    proof (cases "below w q L' q'")
      case True
      with that have same: "L' = w" "q' = q"
        by (simp_all add: below_leaf)
      have "members rv w w q = {a}"
        using r(4) b by auto
      then have "entry_at rv w w q = Some (Leaf a)"
        by (simp add: entry_at_def node_at_def)
      with True show ?thesis
        by (simp add: same table)
    next
      case False
      have "to_string L' q' \<noteq> to_string w q"
      proof
        assume "to_string L' q' = to_string w q"
        from to_string_inject [OF this that(2) r(2)] that(1) False show False
          by (simp add: below_leaf)
      qed
      with False show ?thesis
        by (simp add: table)
    qed
    show "trace_ok rv w st'"
      unfolding trace_ok_def
    proof (intro allI impI)
      fix p lo hi n assume "(p, lo, hi, n) \<in> set (leafSteps st')"
      then consider "(p, lo, hi, n) \<in> set (leafSteps st)"
        | "p = to_string w q" "lo = int a" "hi = int b - 1" "n = Leaf a"
        by (auto simp: st'_def)
      then show "lo = hi \<and> 0 \<le> lo \<and> lo < int (length rv) \<and> length p = w \<and> n = Leaf (nat lo) \<and>
        lookup st' p = Some n"
      proof cases
        case 1
        with r(8) have old: "lo = hi \<and> 0 \<le> lo \<and> lo < int (length rv) \<and> length p = w \<and>
            n = Leaf (nat lo) \<and> lookup st p = Some n"
          unfolding trace_ok_def by blast
        with kept [of p n] show ?thesis
          by simp
      next
        case 2
        with b bound show ?thesis
          by (simp add: table)
      qed
    qed
    show "lookup st' p = Some n" if "lookup st p = Some n" for p n
      using that by (rule kept)
  qed
  with run show ?thesis
    by blast
qed

lemma Max_window: "a < k \<Longrightarrow> Max {a..<k} = k - 1" for a k :: nat
  by (rule Max_eqI) auto

lemma Min_window: "k < b \<Longrightarrow> Min {k..<b} = k" for k b :: nat
  by (rule Min_eqI) auto

lemma node_at_inner:
  assumes "L \<noteq> w" and "members rv w (Suc L) (2 * q) = {a..<k}"
    and "members rv w (Suc L) (2 * q + 1) = {k..<b}"
  shows "node_at rv w L q
           = Split (if a < k then Some (k - 1) else None) (if k < b then Some k else None)"
  using assms by (simp add: node_at_def Max_window Min_window)

lemma child_path_differs:
  assumes "below (Suc L) c L' q'"
  shows "to_string L' q' \<noteq> to_string L q"
proof
  assume "to_string L' q' = to_string L q"
  then have "length (to_string L' q') = length (to_string L q)"
    by simp
  with below_child_length [OF assms] show False
    by simp
qed

lemma below_child:
  assumes "below (Suc L) c L' q'" and "c = 2 * q \<or> c = 2 * q + 1"
  shows "below L q L' q'"
  using assms below_cases [of L q L' q'] by auto

lemma left_ready:
  assumes "ready rv w L q a b st" and "w - L = Suc e" and "a < k"
    and "members rv w (Suc L) (2 * q) = {a..<k}"
    and "length (representativeValues st1) = length rv"
    and "\<And>i. a \<le> i \<Longrightarrow> i < k \<Longrightarrow> representativeValues st1 ! i = rv ! i mod 2 ^ e"
    and "lookup st1 = insert_new (lookup st) (to_string L q) N"
    and "leafSteps st1 = leafSteps st"
  shows "ready rv w (Suc L) (2 * q) a k st1"
proof (rule readyI)
  note r = readyD [OF assms(1)]
  show "Suc L \<le> w" using assms(2) by simp
  show "2 * q < 2 ^ Suc L" using r(2) by simp
  show "a < k" by (rule assms(3))
  show "members rv w (Suc L) (2 * q) = {a..<k}" by (rule assms(4))
  show "length (representativeValues st1) = length rv" by (rule assms(5))
  show "representativeValues st1 ! i = rv ! i mod 2 ^ (w - Suc L)" if "a \<le> i" "i < k" for i
  proof -
    from assms(2) have "w - Suc L = e" by simp
    with assms(6) [OF that] show ?thesis by simp
  qed
  show "lookup st1 (to_string L' q') = None"
    if "L' \<le> w" "q' < 2 ^ L'" "below (Suc L) (2 * q) L' q'" for L' q'
  proof -
    from that(3) have "below L q L' q'"
      by (rule below_child) simp
    from r(7) [OF that(1,2) this] child_path_differs [OF that(3), of q] show ?thesis
      by (simp add: assms(7) insert_new_def)
  qed
  show "trace_ok rv w st1"
    using r(8) assms(8) by (rule trace_ok_lookup) (simp add: assms(7) insert_new_preserves)
qed

lemma right_ready:
  assumes "ready rv w L q a b st" and "w - L = Suc e" and "k < b"
    and "members rv w (Suc L) (2 * q + 1) = {k..<b}"
    and "built rv w (Suc L) (2 * q) a k st1 st2"
    and "length (representativeValues st1) = length rv"
    and "\<And>i. k \<le> i \<Longrightarrow> i < b \<Longrightarrow> representativeValues st1 ! i = rv ! i mod 2 ^ e"
    and "lookup st1 = insert_new (lookup st) (to_string L q) N"
  shows "ready rv w (Suc L) (2 * q + 1) k b st2"
proof (rule readyI)
  note r = readyD [OF assms(1)] and l = builtD [OF assms(5)]
  show "Suc L \<le> w" using assms(2) by simp
  show "2 * q + 1 < 2 ^ Suc L" using r(2) by simp
  show "k < b" by (rule assms(3))
  show "members rv w (Suc L) (2 * q + 1) = {k..<b}" by (rule assms(4))
  show "length (representativeValues st2) = length rv"
    using l(1) assms(6) by simp
  show "representativeValues st2 ! i = rv ! i mod 2 ^ (w - Suc L)" if "k \<le> i" "i < b" for i
  proof -
    from assms(2) have "w - Suc L = e" by simp
    moreover from that have "representativeValues st2 ! i = representativeValues st1 ! i"
      by (intro l(2)) simp
    ultimately show ?thesis
      using assms(7) [OF that] by simp
  qed
  show "lookup st2 (to_string L' q') = None"
    if "L' \<le> w" "q' < 2 ^ L'" "below (Suc L) (2 * q + 1) L' q'" for L' q'
  proof -
    from that(3) have "below L q L' q'"
      by (rule below_child) simp
    from r(7) [OF that(1,2) this] child_path_differs [OF that(3), of q]
    have "lookup st1 (to_string L' q') = None"
      by (simp add: assms(8) insert_new_def)
    moreover from that(3) have "\<not> below (Suc L) (2 * q) L' q'"
      using below_not_both [of L q L' q'] by blast
    ultimately show ?thesis
      using l(3) [OF that(1,2)] by simp
  qed
  show "trace_ok rv w st2" by (rule l(4))
qed

lemma empty_built:
  assumes "Lc \<le> w" and "members rv w Lc qc = {}" and "trace_ok rv w st1"
    and "\<And>L' q'. L' \<le> w \<Longrightarrow> q' < 2 ^ L' \<Longrightarrow> below Lc qc L' q'
           \<Longrightarrow> lookup st1 (to_string L' q') = None"
  shows "built rv w Lc qc a a st1 st1"
proof (rule builtI)
  show "lookup st1 (to_string L' q')
          = (if below Lc qc L' q' then entry_at rv w L' q' else lookup st1 (to_string L' q'))"
    if "L' \<le> w" "q' < 2 ^ L'" for L' q'
  proof (cases "below Lc qc L' q'")
    case True
    from below_members [OF True that(1), of rv] assms(2) have "members rv w L' q' = {}"
      by simp
    with True assms(4) [OF that True] show ?thesis
      by (simp add: entry_at_def)
  next
    case False
    then show ?thesis by simp
  qed
qed (simp_all add: assms(3))

lemma after_inner:
  assumes "ready rv w L q a b st"
    and "lookup st1 = insert_new (lookup st) (to_string L q) N"
    and "leafSteps st1 = leafSteps st"
  shows "trace_ok rv w st1"
    and "\<And>L' q' c. L' \<le> w \<Longrightarrow> q' < 2 ^ L' \<Longrightarrow> below (Suc L) c L' q'
           \<Longrightarrow> c = 2 * q \<or> c = 2 * q + 1 \<Longrightarrow> lookup st1 (to_string L' q') = None"
    and "\<And>p n. lookup st p = Some n \<Longrightarrow> lookup st1 p = Some n"
    and "lookup st1 (to_string L q) = Some N"
    and "\<And>L' q'. to_string L' q' \<noteq> to_string L q
           \<Longrightarrow> lookup st1 (to_string L' q') = lookup st (to_string L' q')"
proof -
  note r = readyD [OF assms(1)]
  show "trace_ok rv w st1"
    using r(8) assms(3) by (rule trace_ok_lookup) (simp add: assms(2) insert_new_preserves)
  show "lookup st1 (to_string L' q') = None"
    if "L' \<le> w" "q' < 2 ^ L'" "below (Suc L) c L' q'" "c = 2 * q \<or> c = 2 * q + 1" for L' q' c
  proof -
    from that(3,4) have "below L q L' q'"
      by (rule below_child)
    from r(7) [OF that(1,2) this] child_path_differs [OF that(3), of q] show ?thesis
      by (simp add: assms(2) insert_new_def)
  qed
  show "lookup st1 p = Some n" if "lookup st p = Some n" for p n
    using that by (simp add: assms(2) insert_new_preserves)
  have "lookup st (to_string L q) = None"
    using r(1,2) by (intro r(7)) (simp_all add: below_refl)
  then show "lookup st1 (to_string L q) = Some N"
    by (simp add: assms(2) insert_new_def)
  show "lookup st1 (to_string L' q') = lookup st (to_string L' q')"
    if "to_string L' q' \<noteq> to_string L q" for L' q'
    using that by (simp add: assms(2) insert_new_def)
qed

lemma join_built:
  assumes "ready rv w L q a b st" and "w - L = Suc e" and "a \<le> k" and "k \<le> b"
    and "length (representativeValues st1) = length rv"
    and "\<And>i. \<not> (a \<le> i \<and> i < b) \<Longrightarrow> representativeValues st1 ! i = representativeValues st ! i"
    and "lookup st1 = insert_new (lookup st) (to_string L q) (node_at rv w L q)"
    and "leafSteps st1 = leafSteps st"
    and "built rv w (Suc L) (2 * q) a k st1 st2"
    and "built rv w (Suc L) (2 * q + 1) k b st2 st3"
  shows "built rv w L q a b st st3"
proof (rule builtI)
  note r = readyD [OF assms(1)] and l = builtD [OF assms(9)] and rt = builtD [OF assms(10)]
  note i = after_inner [OF assms(1,7,8)]
  show "length (representativeValues st3) = length (representativeValues st)"
    using rt(1) l(1) assms(5) r(5) by simp
  show "representativeValues st3 ! i = representativeValues st ! i" if "\<not> (a \<le> i \<and> i < b)" for i
  proof -
    from that assms(3,4) have nr: "\<not> (k \<le> i \<and> i < b)" and nl: "\<not> (a \<le> i \<and> i < k)"
      by auto
    from rt(2) [OF nr] l(2) [OF nl] assms(6) [OF that] show ?thesis
      by simp
  qed
  show "lookup st3 (to_string L' q')
          = (if below L q L' q' then entry_at rv w L' q' else lookup st (to_string L' q'))"
    if v: "L' \<le> w" "q' < 2 ^ L'" for L' q'
  proof -
    consider (self) "L' = L" "q' = q"
      | (left) "below (Suc L) (2 * q) L' q'"
      | (right) "below (Suc L) (2 * q + 1) L' q'"
      | (outside) "\<not> below L q L' q'"
      using below_cases [of L q L' q'] by blast
    then show ?thesis
    proof cases
      case self
      have nl: "\<not> below (Suc L) (2 * q) L' q'" and nr: "\<not> below (Suc L) (2 * q + 1) L' q'"
        using self by (simp_all add: below_def)
      have "lookup st3 (to_string L' q') = lookup st1 (to_string L' q')"
        using rt(3) [OF v] l(3) [OF v] nl nr by simp
      moreover have "members rv w L q \<noteq> {}"
        using r(3,4) by simp
      ultimately show ?thesis
        using self i(4) by (simp add: below_refl entry_at_def)
    next
      case left
      then have "\<not> below (Suc L) (2 * q + 1) L' q'"
        by (rule below_not_both)
      moreover from left have "below L q L' q'"
        by (rule below_child) simp
      ultimately show ?thesis
        using rt(3) [OF v] l(3) [OF v] left by simp
    next
      case right
      then have "below L q L' q'"
        by (rule below_child) simp
      with rt(3) [OF v] right show ?thesis
        by simp
    next
      case outside
      with below_cases [of L q L' q']
      have nl: "\<not> below (Suc L) (2 * q) L' q'" and nr: "\<not> below (Suc L) (2 * q + 1) L' q'"
        and ns: "\<not> (L' = L \<and> q' = q)"
        by simp_all
      have "to_string L' q' \<noteq> to_string L q"
      proof
        assume "to_string L' q' = to_string L q"
        from to_string_inject [OF this v(2) r(2)] ns show False
          by simp
      qed
      from i(5) [OF this] rt(3) [OF v] l(3) [OF v] nl nr outside show ?thesis
        by simp
    qed
  qed
  show "trace_ok rv w st3" by (rule rt(4))
  show "lookup st3 p = Some n" if "lookup st p = Some n" for p n
    using that i(3) l(5) rt(5) by simp
qed

lemma constructTrie_step:
  assumes "e \<noteq> - 1" and "inner_step reps st e path lo hi = Inr (k, st1)"
    and "(if lo < k then constructTrie reps st1 (e - 1) (path @ ''0'') lo (k - 1) else Inr st1)
           = Inr st2"
    and "(if k \<le> hi then constructTrie reps st2 (e - 1) (path @ ''1'') k hi else Inr st2)
           = Inr st3"
  shows "constructTrie reps st e path lo hi = Inr st3"
  by (subst constructTrie.simps) (simp add: assms)

subsection \<open>The whole recursion\<close>

lemma nth_beyond:
  "length xs = length ys \<Longrightarrow> length xs \<le> i \<Longrightarrow> xs ! i = ys ! i"
proof (induction xs arbitrary: ys i)
  case Nil
  then show ?case by simp
next
  case (Cons x xs)
  then obtain y ys' where ys: "ys = y # ys'"
    by (cases ys) simp_all
  from Cons.prems obtain i' where i: "i = Suc i'"
    by (cases i) simp_all
  with Cons ys show ?case
    by simp
qed

lemma subtree_built:
  assumes "good rv w" and "w \<le> 64" and "length reps = length rv"
    and "ready rv w L q a b st"
  shows "\<exists>st'. constructTrie reps st (int (w - L) - 1) (to_string L q) (int a) (int b - 1)
                 = Inr st' \<and>
               built rv w L q a b st st'"
  using assms(4)
proof (induction "w - L" arbitrary: L q a b st)
  case 0
  with readyD(1) [OF "0.prems"] have "L = w"
    by simp
  with leaf_built [OF assms(1,3), of q a b st] "0.prems" show ?case
    by simp
next
  case (Suc e)
  note r = readyD [OF Suc.prems]
  have wL: "w - L = Suc e"
    using Suc.hyps(2) by simp
  then have L: "L \<noteq> w" and e: "w - Suc L = e" and e63: "int e \<le> 63"
    using assms(2) by simp_all
  obtain k where k: "a \<le> k" "k \<le> b"
    "\<forall>j. a \<le> j \<and> j < k \<longrightarrow> rv ! j mod 2 ^ Suc e < 2 ^ e"
    "\<forall>j. k \<le> j \<and> j < b \<longrightarrow> 2 ^ e \<le> rv ! j mod 2 ^ Suc e"
    by (rule threshold [OF assms(1) r(4) r(3) wL])
  note ch = members_children [OF r(4) wL k]
  have bound: "b \<le> length rv"
    using Suc.prems by (rule ready_window_bound)
  have val: "representativeValues st ! i = rv ! i mod 2 ^ Suc e" if "a \<le> i" "i < b" for i
    using r(6) [OF that] by (simp only: wL)
  have lows: "\<forall>j. a \<le> j \<and> j < k \<longrightarrow> representativeValues st ! j < 2 ^ nat (int e)"
    using k(2,3) val by simp
  have highs: "\<forall>j. k \<le> j \<and> j < b \<longrightarrow> 2 ^ nat (int e) \<le> representativeValues st ! j"
    using k(1,4) val by simp
  define st1 where "st1 = st\<lparr>representativeValues := strip (2 ^ e) k b (representativeValues st),
      lookup := insert_new (lookup st) (to_string L q) (node_at rv w L q)\<rparr>"
  have inner: "inner_step reps st (int e) (to_string L q) (int a) (int b - 1) = Inr (int k, st1)"
    using inner_step_window [OF _ e63 k(1,2) r(3) _ _ lows highs, of reps "to_string L q"]
      bound r(5) assms(3)
    by (simp add: st1_def node_at_inner [OF L ch])
  have len1: "length (representativeValues st1) = length rv"
    by (simp add: st1_def r(5))
  have table1: "lookup st1 = insert_new (lookup st) (to_string L q) (node_at rv w L q)"
    and steps1: "leafSteps st1 = leafSteps st"
    by (simp_all add: st1_def)
  note i = after_inner [OF Suc.prems table1 steps1]
  have in_range: "i < length (representativeValues st)" if "i < b" for i
    using that bound r(5) by simp
  have left_vals: "representativeValues st1 ! i = rv ! i mod 2 ^ e" if "a \<le> i" "i < k" for i
  proof -
    from that k(2) have "i < b" by simp
    then have "representativeValues st1 ! i = rv ! i mod 2 ^ Suc e"
      using that val [of i] in_range [of i] by (simp add: st1_def nth_strip)
    moreover have "rv ! i mod 2 ^ Suc e < 2 ^ e"
      using k(3) that by simp
    ultimately show ?thesis
      by (simp add: stripped_0)
  qed
  have right_vals: "representativeValues st1 ! i = rv ! i mod 2 ^ e" if "k \<le> i" "i < b" for i
  proof -
    from that k(1) have "a \<le> i" by simp
    then have "representativeValues st1 ! i = rv ! i mod 2 ^ Suc e - 2 ^ e"
      using that val [of i] in_range [of i] by (simp add: st1_def nth_strip)
    moreover have "2 ^ e \<le> rv ! i mod 2 ^ Suc e"
      using k(4) that by simp
    ultimately show ?thesis
      by (simp add: stripped_1)
  qed
  have frame1: "representativeValues st1 ! i = representativeValues st ! i"
    if "\<not> (a \<le> i \<and> i < b)" for i
  proof (cases "i < length (representativeValues st)")
    case True
    with that k(1) show ?thesis
      by (auto simp: st1_def nth_strip)
  next
    case False
    then have "strip (2 ^ e) k b (representativeValues st) ! i = representativeValues st ! i"
      by (intro nth_beyond) simp_all
    then show ?thesis
      by (simp add: st1_def)
  qed
  have "\<exists>st2. (if int a < int k
               then constructTrie reps st1 (int e - 1) (to_string L q @ ''0'') (int a) (int k - 1)
               else Inr st1) = Inr st2 \<and>
              built rv w (Suc L) (2 * q) a k st1 st2"
  proof (cases "a < k")
    case True
    have "ready rv w (Suc L) (2 * q) a k st1"
      using Suc.prems wL True ch(1) len1 left_vals table1 steps1 by (rule left_ready)
    from Suc.hyps(1) [OF e [symmetric] this] True show ?thesis
      by (simp add: e to_string_append_0 del: to_string.simps)
  next
    case False
    with k(1) have ka: "k = a" by simp
    have "built rv w (Suc L) (2 * q) a a st1 st1"
    proof (rule empty_built)
      show "Suc L \<le> w" using wL by simp
      show "members rv w (Suc L) (2 * q) = {}" using ch(1) ka by simp
      show "trace_ok rv w st1" by (rule i(1))
      show "lookup st1 (to_string L' q') = None"
        if "L' \<le> w" "q' < 2 ^ L'" "below (Suc L) (2 * q) L' q'" for L' q'
        using that by (rule i(2)) simp
    qed
    with False ka show ?thesis
      by simp
  qed
  then obtain st2 where run2: "(if int a < int k
               then constructTrie reps st1 (int e - 1) (to_string L q @ ''0'') (int a) (int k - 1)
               else Inr st1) = Inr st2"
    and built2: "built rv w (Suc L) (2 * q) a k st1 st2"
    by blast
  note l = builtD [OF built2]
  have "\<exists>st3. (if int k \<le> int b - 1
               then constructTrie reps st2 (int e - 1) (to_string L q @ ''1'') (int k) (int b - 1)
               else Inr st2) = Inr st3 \<and>
              built rv w (Suc L) (2 * q + 1) k b st2 st3"
  proof (cases "k < b")
    case True
    have "ready rv w (Suc L) (2 * q + 1) k b st2"
      using Suc.prems wL True ch(2) built2 len1 right_vals table1 by (rule right_ready)
    from Suc.hyps(1) [OF e [symmetric] this] True show ?thesis
      by (simp add: e to_string_append_1 del: to_string.simps)
  next
    case False
    with k(2) have kb: "k = b" by simp
    have "built rv w (Suc L) (2 * q + 1) b b st2 st2"
    proof (rule empty_built)
      show "Suc L \<le> w" using wL by simp
      show "members rv w (Suc L) (2 * q + 1) = {}" using ch(2) kb by simp
      show "trace_ok rv w st2" by (rule l(4))
      show "lookup st2 (to_string L' q') = None"
        if v: "L' \<le> w" "q' < 2 ^ L'" and below: "below (Suc L) (2 * q + 1) L' q'" for L' q'
      proof -
        have "lookup st1 (to_string L' q') = None"
          using v below by (rule i(2)) simp
        moreover have "\<not> below (Suc L) (2 * q) L' q'"
          using below below_not_both [of L q L' q'] by blast
        ultimately show ?thesis
          using l(3) [OF v] by simp
      qed
    qed
    with False kb show ?thesis
      by simp
  qed
  then obtain st3 where run3: "(if int k \<le> int b - 1
               then constructTrie reps st2 (int e - 1) (to_string L q @ ''1'') (int k) (int b - 1)
               else Inr st2) = Inr st3"
    and built3: "built rv w (Suc L) (2 * q + 1) k b st2 st3"
    by blast
  have "constructTrie reps st (int e) (to_string L q) (int a) (int b - 1) = Inr st3"
    using _ inner run2 run3 by (rule constructTrie_step) simp
  moreover have "built rv w L q a b st st3"
    using Suc.prems wL k(1,2) len1 frame1 table1 steps1 built2 built3 by (rule join_built)
  moreover have "int (w - L) - 1 = int e"
    using wL by simp
  ultimately show ?case
    by (simp only:) blast
qed

lemma mantissa_shift_upper: "x div 2 ^ mantissa_shift x < 2 ^ 53"
proof (induction x rule: mantissa_shift.induct)
  case (1 v)
  show ?case
  proof (cases "v < 2 ^ 53")
    case True
    then show ?thesis
      by (subst mantissa_shift.simps) simp
  next
    case False
    have "v div 2 ^ Suc (mantissa_shift (v div 2)) = v div 2 div 2 ^ mantissa_shift (v div 2)"
      by (simp add: div_mult2_eq)
    with 1 [OF False] False show ?thesis
      by (subst mantissa_shift.simps) (simp only: if_False)
  qed
qed

lemma mantissa_shift_lower: "0 < mantissa_shift x \<Longrightarrow> 2 ^ 52 \<le> x div 2 ^ mantissa_shift x"
proof (induction x rule: mantissa_shift.induct)
  case (1 v)
  from 1(2) have big: "\<not> v < 2 ^ 53"
    by (subst (asm) mantissa_shift.simps) (simp split: if_splits)
  then have e: "mantissa_shift v = Suc (mantissa_shift (v div 2))"
    by (subst mantissa_shift.simps) simp
  have shift: "v div 2 ^ Suc (mantissa_shift (v div 2)) = v div 2 div 2 ^ mantissa_shift (v div 2)"
    by (simp add: div_mult2_eq)
  show ?case
  proof (cases "0 < mantissa_shift (v div 2)")
    case True
    from 1(1) [OF big True] show ?thesis
      by (simp only: e shift)
  next
    case False
    moreover from big have "2 ^ 52 \<le> v div 2"
      by simp
    ultimately show ?thesis
      by (simp only: e shift) simp
  qed
qed

lemma u64_to_double_cases:
  obtains "mantissa_shift x = 0" and "u64_to_double x = x"
  | q e where "e = mantissa_shift x" and "0 < e" and "q = x div 2 ^ e"
      and "u64_to_double x = q * 2 ^ e \<or> u64_to_double x = (q + 1) * 2 ^ e"
proof (cases "mantissa_shift x = 0")
  case True
  then have "u64_to_double x = x"
    by (simp add: u64_to_double_def)
  with True show ?thesis
    by (rule that(1))
next
  case False
  then have "u64_to_double x = x div 2 ^ mantissa_shift x * 2 ^ mantissa_shift x \<or>
      u64_to_double x = (x div 2 ^ mantissa_shift x + 1) * 2 ^ mantissa_shift x"
    by (simp add: u64_to_double_def Let_def)
  with False show ?thesis
    by (intro that(2) [of "mantissa_shift x" "x div 2 ^ mantissa_shift x"]) simp_all
qed

lemma u64_to_double_ge:
  assumes "2 ^ j \<le> x"
  shows "2 ^ j \<le> u64_to_double x"
proof (cases x rule: u64_to_double_cases)
  case 1
  with assms show ?thesis by simp
next
  case (2 q e)
  from mantissa_shift_lower [of x] 2(1,2,3) have q: "2 ^ 52 \<le> q"
    by simp
  then have q1: "1 \<le> q"
    by (rule order_trans [rotated]) simp
  have "2 ^ j \<le> q * 2 ^ e"
  proof (cases "j \<le> e")
    case True
    then have "(2::nat) ^ j \<le> 2 ^ e"
      by (intro power_increasing) simp_all
    also have "\<dots> \<le> q * 2 ^ e"
      using q1 by simp
    finally show ?thesis .
  next
    case False
    then have split: "(2::nat) ^ j = 2 ^ (j - e) * 2 ^ e"
      by (simp flip: power_add)
    with assms have "2 ^ (j - e) * 2 ^ e div 2 ^ e \<le> x div 2 ^ e"
      by (intro div_le_mono) simp
    then have "2 ^ (j - e) \<le> q"
      by (simp add: 2(3))
    then have "2 ^ (j - e) * 2 ^ e \<le> q * 2 ^ e"
      by (rule mult_le_mono1)
    then show ?thesis
      by (simp only: split)
  qed
  moreover have "q * 2 ^ e \<le> (q + 1) * 2 ^ e"
    by simp
  ultimately show ?thesis
    using 2(4) by auto
qed

lemma u64_to_double_le:
  assumes "x < 2 ^ 64"
  shows "u64_to_double x \<le> 2 ^ 64"
proof (cases x rule: u64_to_double_cases)
  case 1
  with assms show ?thesis by simp
next
  case (2 q e)
  from mantissa_shift_lower [of x] 2(1,2,3) have q: "2 ^ 52 \<le> q"
    by simp
  then have q1: "1 \<le> q"
    by (rule order_trans [rotated]) simp
  have "q * 2 ^ e \<le> x"
    unfolding 2(3) by simp
  with q1 have "1 * 2 ^ e \<le> x"
    by (meson mult_le_mono1 order_trans)
  with assms have "(2::nat) ^ e < 2 ^ 64"
    by simp
  then have e: "e < 64"
    by (rule power_less_imp_less_exp [rotated]) simp
  then have split: "(2::nat) ^ 64 = 2 ^ (64 - e) * 2 ^ e"
    by (simp flip: power_add)
  from assms have "x div 2 ^ e < 2 ^ (64 - e)"
    unfolding split by (intro less_mult_imp_div_less)
  then have "q + 1 \<le> 2 ^ (64 - e)"
    by (simp add: 2(3))
  then have "(q + 1) * 2 ^ e \<le> 2 ^ (64 - e) * 2 ^ e"
    by (rule mult_le_mono1)
  then have up: "(q + 1) * 2 ^ e \<le> 2 ^ 64"
    by (simp only: split)
  moreover have "q * 2 ^ e \<le> (q + 1) * 2 ^ e"
    by simp
  ultimately show ?thesis
    using 2(4) by auto
qed

lemma calcDepth_covers:
  assumes "calcDepth values = Inr depth" and "last values < 2 ^ 64"
  shows "last values < 2 ^ (nat depth + 1)"
proof (cases "last values = 0")
  case True
  then show ?thesis by simp
next
  case False
  define x where "x = last values"
  define x' where "x' = u64_to_double x"
  from False have pos: "1 \<le> x"
    by (simp add: x_def)
  from calcDepth_Inr [OF assms(1)] have ne: "values \<noteq> []" and d0: "0 \<le> depth"
    by simp_all
  with assms(1) have depth: "depth = \<lfloor>std_log2 x'\<rfloor>"
    by (simp add: calcDepth_def vec_back_def x_def x'_def split: if_splits)
  from ex_power_ivl1 [of 2 x] pos obtain j where j: "2 ^ j \<le> x" "x < 2 ^ (j + 1)"
    by auto
  have "int j \<le> depth"
  proof (cases "j = 0")
    case True
    with d0 show ?thesis by simp
  next
    case False
    from j(1) have low: "2 ^ j \<le> x'"
      unfolding x'_def by (rule u64_to_double_ge)
    then have x'pos: "0 < x'"
      by (rule less_le_trans [rotated]) simp
    from low have "real j \<le> log 2 (real x')"
      using x'pos by (intro le_log2_of_power) simp_all
    moreover from assms(2) have "x' \<le> 2 ^ 64"
      unfolding x'_def x_def by (rule u64_to_double_le)
    then have "real x' \<le> 2 ^ 64"
      by (metis of_nat_le_iff of_nat_numeral of_nat_power)
    then have "log 2 (real x') \<le> log 2 (2 ^ 64)"
      using x'pos by (subst log_le_cancel_iff) simp_all
    then have "log 2 (real x') \<le> 64"
      by (simp only: log_pow_cancel)
    then have "log 2 (real x') < 2 ^ 52"
      by (rule le_less_trans) simp
    ultimately have "real j \<le> to_nearest_double (log 2 (real x'))"
      using False by (intro double_at_least) simp_all
    then have "int j \<le> \<lfloor>to_nearest_double (log 2 (real x'))\<rfloor>"
      by (simp add: le_floor_iff)
    then show ?thesis
      by (simp only: depth std_log2_def)
  qed
  then have "j + 1 \<le> nat depth + 1"
    by simp
  then have "(2::nat) ^ (j + 1) \<le> 2 ^ (nat depth + 1)"
    by (intro power_increasing) simp_all
  with j(2) show ?thesis
    unfolding x_def by (rule less_le_trans)
qed

lemma build_depth:
  assumes "build values depth reps = Inr st" and "0 \<le> depth"
  shows "depth \<le> 63"
proof (rule ccontr)
  assume "\<not> depth \<le> 63"
  with assms(2) have "depth \<noteq> - 1" and "63 < depth"
    by simp_all
  then have "build values depth reps = Inl Undefined_shift"
    unfolding build_def
    by (subst constructTrie.simps) (simp add: inner_step_def)
  with assms(1) show False
    by simp
qed

lemma good_representatives:
  assumes "sorted_wrt (<) values" and "calcDepth values = Inr depth"
    and "split values depth = Inr reps" and "last values < 2 ^ 64"
  shows "good (map getValue reps) (nat depth + 1)" and "reps \<noteq> []"
proof -
  define d where "d = nat depth"
  define c where "c = (length values + d - 1) div d"
  from calcDepth_Inr [OF assms(2)] split_Inr [OF _ _ assms(3)]
  have d: "0 < d" and dn: "d \<le> length values" and reps: "reps = chain d values c" and ne: "values \<noteq> []"
    by (simp_all add: d_def c_def)
  have val: "map getValue reps ! j = last (block d values j)" if "j < c" for j
    using that by (simp add: reps linked_def)
  have len: "length (map getValue reps) = c"
    by (simp add: reps)
  from d dn have "0 < c"
    unfolding c_def by (simp add: div_greater_zero_iff)
  then show "reps \<noteq> []"
    using len by auto
  have step: "map getValue reps ! i < map getValue reps ! Suc i" if "Suc i < length (map getValue reps)" for i
  proof -
    from that have i: "i + 1 < c"
      unfolding len by simp
    then have "last (block d values i) < last (block d values (i + 1))"
      unfolding c_def by (rule chain_values_increase [OF assms(1) d])
    moreover from i have "i < c" "Suc i < c"
      by simp_all
    ultimately show ?thesis
      by (simp only: val) simp
  qed
  have "transp ((<) :: nat \<Rightarrow> nat \<Rightarrow> bool)"
    by (rule transpI) simp
  then have sorted: "sorted_wrt (<) (map getValue reps)"
    using step by (simp only: sorted_wrt_iff_nth_Suc_transp) simp
  from assms(1) have s: "sorted values"
    by (rule strict_sorted_imp_sorted)
  have bound: "map getValue reps ! i < 2 ^ (nat depth + 1)" if "i < length (map getValue reps)" for i
  proof -
    from that have i: "i < c"
      by (simp only: len)
    from block_nonempty [OF d, of i "values"] i have "last (block d values i) \<in> set (block d values i)"
      by (simp add: c_def)
    then have "last (block d values i) \<in> set values"
      unfolding block_def by (meson in_set_dropD in_set_takeD)
    then obtain m where "m < length values" "last (block d values i) = values ! m"
      by (auto simp: in_set_conv_nth)
    with s ne have "last (block d values i) \<le> last values"
      by (simp add: last_conv_nth sorted_nth_mono)
    also have "last values < 2 ^ (nat depth + 1)"
      using assms(2,4) by (rule calcDepth_covers)
    finally show ?thesis
      by (simp only: val [OF i])
  qed
  from sorted bound show "good (map getValue reps) (nat depth + 1)"
    unfolding good_def by blast
qed

lemma build_built:
  assumes "sorted_wrt (<) values" and "calcDepth values = Inr depth"
    and "split values depth = Inr reps" and "last values < 2 ^ 64" and "depth \<le> 63"
  shows "\<exists>st. build values depth reps = Inr st \<and>
           built (map getValue reps) (nat depth + 1) 0 0 0 (length reps)
             \<lparr>representativeValues = map getValue reps, lookup = Map.empty, leafSteps = []\<rparr> st"
proof -
  define rv where "rv = map getValue reps"
  define w where "w = nat depth + 1"
  define st0 where "st0 = \<lparr>representativeValues = rv, lookup = Map.empty, leafSteps = []\<rparr>"
  from calcDepth_Inr [OF assms(2)] have d0: "0 \<le> depth"
    by simp
  from good_representatives [OF assms(1-4)] have good: "good rv w" and ne: "reps \<noteq> []"
    by (simp_all add: rv_def w_def)
  have len: "length reps = length rv"
    by (simp add: rv_def)
  from assms(5) d0 have w: "w \<le> 64"
    by (simp add: w_def)
  have "ready rv w 0 0 0 (length rv) st0"
  proof (rule readyI)
    show "0 \<le> w" by simp
    show "(0::nat) < 2 ^ 0" by simp
    show "0 < length rv" using ne by (simp add: rv_def)
    show "members rv w 0 0 = {0..<length rv}"
      using good by (rule members_root)
    show "length (representativeValues st0) = length rv"
      by (simp add: st0_def)
    show "representativeValues st0 ! i = rv ! i mod 2 ^ (w - 0)" if "0 \<le> i" "i < length rv" for i
      using that good by (simp add: st0_def good_def)
    show "lookup st0 (to_string L' q') = None" for L' q'
      by (simp add: st0_def)
    show "trace_ok rv w st0"
      by (simp add: trace_ok_def st0_def)
  qed
  from subtree_built [OF good w len this]
  obtain st where "constructTrie reps st0 (int (w - 0) - 1) (to_string 0 0) (int 0) (int (length rv) - 1)
      = Inr st" and b: "built rv w 0 0 0 (length rv) st0 st"
    by blast
  moreover have "int (w - 0) - 1 = depth"
    using d0 by (simp add: w_def)
  ultimately have "build values depth reps = Inr st"
    by (simp add: build_def st0_def rv_def)
  with b show ?thesis
    unfolding rv_def [symmetric] w_def [symmetric] st0_def [symmetric] len by blast
qed

subsection \<open>Leaf steps\<close>

text \<open>
  C7. Take strictly ascending 64-bit keys for which the constructor computes the depth,
  splits the keys and builds the table. Every leaf step that \<open>constructTrie\<close> makes then
  has a path of \<open>depth_ + 1\<close> digits and a window \<open>[lo, hi]\<close> with \<open>lo = hi\<close>, the index of a
  representative: exactly one representative is left. The \<open>Leaf\<close> it stores under the
  path is that of the representative at \<open>lo\<close> if the last digit of the path is 0 and of
  the one at \<open>hi\<close> otherwise, which is the same representative.
\<close>

theorem leaf_step_has_one_representative:
  assumes "sorted_wrt (<) values" and "last values < 2 ^ 64"
    and "calcDepth values = Inr depth" and "split values depth = Inr representatives"
    and "build values depth representatives = Inr st"
    and "(path, lo, hi, node) \<in> set (leafSteps st)"
  shows "int (length path) = depth + 1 \<and> lo = hi \<and> 0 \<le> lo \<and>
         lo < int (length representatives) \<and>
         node = Leaf (nat (if last path = CHR ''0'' then lo else hi)) \<and>
         lookup st path = Some node"
proof -
  from calcDepth_Inr [OF assms(3)] have d0: "0 \<le> depth"
    by simp
  from assms(5) d0 have "depth \<le> 63"
    by (rule build_depth)
  from build_built [OF assms(1,3,4,2) this] assms(5)
  have "built (map getValue representatives) (nat depth + 1) 0 0 0 (length representatives)
      \<lparr>representativeValues = map getValue representatives, lookup = Map.empty, leafSteps = []\<rparr> st"
    by simp
  then have "trace_ok (map getValue representatives) (nat depth + 1) st"
    by (rule builtD(4))
  with assms(6) have "lo = hi \<and> 0 \<le> lo \<and> lo < int (length (map getValue representatives)) \<and>
      length path = nat depth + 1 \<and> node = Leaf (nat lo) \<and> lookup st path = Some node"
    unfolding trace_ok_def by blast
  with d0 show ?thesis
    by auto
qed

theorem leaf_step_has_one_representative_witness:
  "sorted_wrt (<) scenario_keys \<and> last scenario_keys < 2 ^ 64 \<and>
   calcDepth scenario_keys = Inr 5 \<and> split scenario_keys 5 = Inr scenario_representatives \<and>
   build scenario_keys 5 scenario_representatives =
     Inr \<lparr>representativeValues = [0, 0], lookup = scenario_lookup,
          leafSteps = [(''010100'', 0, 0, Leaf 0), (''101000'', 1, 1, Leaf 1)]\<rparr> \<and>
   length ''101000'' = 6 \<and> scenario_lookup ''101000'' = Some (Leaf 1)"
proof -
  have keys: "sorted_wrt (<) scenario_keys" "last scenario_keys < 2 ^ 64"
    by (simp_all add: scenario_keys_def)
  from leaf_step_has_one_representative [OF keys scenario_depth scenario_split scenario_build,
      of "''101000''" 1 1 "Leaf 1"] keys
  show ?thesis
    by (simp add: scenario_depth scenario_split scenario_build)
qed

section \<open>What a query returns\<close>

subsection \<open>The search finds the longest prefix in the table\<close>

lemma built_table:
  assumes "sorted_wrt (<) values" and "last values < 2 ^ 64"
    and "calcDepth values = Inr depth" and "split values depth = Inr reps"
    and "build values depth reps = Inr st"
    and "L \<le> nat depth + 1" and "q < 2 ^ L"
  shows "lookup st (to_string L q) = entry_at (map getValue reps) (nat depth + 1) L q"
proof -
  from calcDepth_Inr [OF assms(3)] have d0: "0 \<le> depth"
    by simp
  from assms(5) d0 have "depth \<le> 63"
    by (rule build_depth)
  from build_built [OF assms(1,3,4,2) this] assms(5)
  have "built (map getValue reps) (nat depth + 1) 0 0 0 (length reps)
      \<lparr>representativeValues = map getValue reps, lookup = Map.empty, leafSteps = []\<rparr> st"
    by simp
  from builtD(3) [OF this assms(6,7)] below_all [OF assms(7)] show ?thesis
    by simp
qed

lemma search_loop_finds:
  assumes table: "\<And>m. m \<le> w \<Longrightarrow> T (take m bits) = (if m \<le> K then Some (N m) else None)"
    and "bl \<le> K" and "bestMatchingNode s = N bl"
    and "lowRange s = int bl \<or> lowRange s = int bl + 1"
    and "int K \<le> highRange s" and "highRange s \<le> int w"
  shows "bestMatchingNode (search_loop T bits s) = N K"
  using assms(2-6)
proof (induction "nat (highRange s + 1 - lowRange s)" arbitrary: s bl rule: less_induct)
  case less
  show ?case
  proof (cases "lowRange s \<le> highRange s")
    case False
    with less.prems have "bl = K"
      by auto
    moreover from False have "search_loop T bits s = s"
      by (subst search_loop.simps) simp
    ultimately show ?thesis
      using less.prems(2) by simp
  next
    case True
    define middle where "middle = middle_of (lowRange s) (highRange s)"
    define m where "m = nat middle"
    define s' where "s' = search_step T bits s"
    from middle_of_between [OF True] have mid: "lowRange s \<le> middle" "middle \<le> highRange s"
      by (simp_all add: middle_def)
    from less.prems(3) have low0: "0 \<le> lowRange s"
      by auto
    with mid have m: "int m = middle" "m \<le> w"
      using less.prems(5) by (simp_all add: m_def)
    have part: "substr_to bits middle = take m bits"
      using mid(1) low0 by (simp add: substr_to_def m_def)
    from search_step_shrinks(3) [OF True, of T bits]
    have smaller: "nat (highRange s' + 1 - lowRange s') < nat (highRange s + 1 - lowRange s)"
      using True by (simp add: s'_def)
    have loop: "search_loop T bits s = search_loop T bits s'"
      using True by (subst search_loop.simps) (simp add: s'_def)
    show ?thesis
    proof (cases "m \<le> K")
      case present: True
      then have "T (take m bits) = Some (N m)"
        using table [OF m(2)] by simp
      then have s': "s' = (if lowRange s = middle
          then s\<lparr>bestMatchingNode := N m, lowRange := lowRange s + 1\<rparr>
          else s\<lparr>bestMatchingNode := N m, lowRange := middle\<rparr>)"
        by (simp add: s'_def search_step_def Let_def middle_def [symmetric] part)
      have "bestMatchingNode (search_loop T bits s') = N K"
      proof (rule less.hyps [OF smaller present])
        show "bestMatchingNode s' = N m"
          by (simp add: s')
        show "lowRange s' = int m \<or> lowRange s' = int m + 1"
          using m(1) by (simp add: s')
        show "int K \<le> highRange s'"
          using less.prems(4) by (simp add: s')
        show "highRange s' \<le> int w"
          using less.prems(5) by (simp add: s')
      qed
      with loop show ?thesis
        by simp
    next
      case absent: False
      then have "T (take m bits) = None"
        using table [OF m(2)] by simp
      then have s': "s' = (if highRange s = middle
          then s\<lparr>highRange := highRange s - 1\<rparr>
          else s\<lparr>highRange := middle\<rparr>)"
        by (simp add: s'_def search_step_def Let_def middle_def [symmetric] part)
      have "bestMatchingNode (search_loop T bits s') = N K"
      proof (rule less.hyps [OF smaller less.prems(1)])
        show "bestMatchingNode s' = N bl"
          using less.prems(2) by (simp add: s')
        show "lowRange s' = int bl \<or> lowRange s' = int bl + 1"
          using less.prems(3) by (simp add: s')
        show "int K \<le> highRange s'"
          using absent m(1) mid(2) by (auto simp add: s')
        show "highRange s' \<le> int w"
          using less.prems(5) mid(2) by (auto simp add: s')
      qed
      with loop show ?thesis
        by simp
    qed
  qed
qed

lemma locate_finds:
  assumes "0 \<le> m_depth t" and "m_depth t \<le> 63" and "w = nat (m_depth t) + 1"
    and table: "\<And>m. m \<le> w \<Longrightarrow>
        m_lookup t (take m (to_string w limit)) = (if m \<le> K then Some (N m) else None)"
    and "K \<le> w"
  shows "locate t limit = Inr (N K, t)"
proof -
  from assms(1-3) have w: "w \<le> 64" "int w = m_depth t + 1"
    by simp_all
  then have "64 - (m_depth t + 1) = int (64 - w)"
    by simp
  then have bits: "substr_from (to_string 64 limit) (64 - (m_depth t + 1)) = Inr (to_string w limit)"
    using drop_to_string [OF w(1), of limit] by (simp add: substr_from_def)
  from table [of 0] have root: "m_lookup t [] = Some (N 0)"
    by simp
  then have ins: "index_or_insert t [] = (N 0, t)"
    by (simp add: index_or_insert_def)
  have "bestMatchingNode (search_loop (m_lookup t) (to_string w limit)
      \<lparr>lowRange = 0, highRange = m_depth t + 1, bestMatchingNode = N 0\<rparr>) = N K"
  proof (rule search_loop_finds [where w = w and bl = 0, OF table])
    from assms(5) have "int K \<le> int w"
      by simp
    then show "int K \<le> highRange \<lparr>lowRange = 0, highRange = m_depth t + 1, bestMatchingNode = N 0\<rparr>"
      by (simp add: w(2))
  qed (simp_all add: w(2))
  then show ?thesis
    unfolding locate_def bits ins by simp
qed

subsection \<open>The node at the longest prefix\<close>

lemma prefix_below:
  assumes "m \<le> m'" and "m' \<le> w"
  shows "below m (x div 2 ^ (w - m)) m' (x div 2 ^ (w - m'))"
proof -
  from assms have "w - m = (w - m') + (m' - m)"
    by simp
  then have "(2::nat) ^ (w - m) = 2 ^ (w - m') * 2 ^ (m' - m)"
    by (simp only: power_add)
  then have "x div 2 ^ (w - m') div 2 ^ (m' - m) = x div 2 ^ (w - m)"
    by (simp only: div_mult2_eq)
  with assms(1) show ?thesis
    by (simp add: below_def)
qed

lemma prefix_members:
  assumes "m \<le> m'" and "m' \<le> w"
  shows "members rv w m' (x div 2 ^ (w - m')) \<subseteq> members rv w m (x div 2 ^ (w - m))"
  using prefix_below [OF assms] assms(2) by (rule below_members)

lemma longest_prefix:
  assumes "good rv w" and "rv \<noteq> []" and "x < 2 ^ w"
  obtains K where "K \<le> w"
    and "\<And>m. m \<le> w \<Longrightarrow> members rv w m (x div 2 ^ (w - m)) \<noteq> {} \<longleftrightarrow> m \<le> K"
proof -
  define S where "S = {m. m \<le> w \<and> members rv w m (x div 2 ^ (w - m)) \<noteq> {}}"
  define K where "K = Max S"
  have fin: "finite S"
    by (rule finite_subset [of _ "{..w}"]) (auto simp: S_def)
  from assms(3) have "x div 2 ^ w = 0"
    by simp
  with members_root [OF assms(1)] assms(2) have "0 \<in> S"
    by (simp add: S_def)
  then have ne: "S \<noteq> {}"
    by auto
  from Max_in [OF fin ne] have K: "K \<le> w" "members rv w K (x div 2 ^ (w - K)) \<noteq> {}"
    by (simp_all add: K_def S_def)
  show ?thesis
  proof (rule that [OF K(1)])
    fix m assume m: "m \<le> w"
    show "members rv w m (x div 2 ^ (w - m)) \<noteq> {} \<longleftrightarrow> m \<le> K"
    proof
      assume "members rv w m (x div 2 ^ (w - m)) \<noteq> {}"
      with m have "m \<in> S"
        by (simp add: S_def)
      then show "m \<le> K"
        unfolding K_def using fin by (rule Max_ge [rotated])
    next
      assume "m \<le> K"
      from prefix_members [OF this K(1), of rv x] K(2)
      show "members rv w m (x div 2 ^ (w - m)) \<noteq> {}"
        by auto
    qed
  qed
qed

lemma members_split:
  assumes "w - L = Suc e"
  shows "members rv w L q = members rv w (Suc L) (2 * q) \<union> members rv w (Suc L) (2 * q + 1)"
proof -
  from assms have e: "w - Suc L = e"
    by simp
  have "rv ! i div 2 ^ Suc e = q \<longleftrightarrow> rv ! i div 2 ^ e = 2 * q \<or> rv ! i div 2 ^ e = 2 * q + 1" for i
    using bit_cases [of "rv ! i div 2 ^ e"]
    by (auto simp only: child_0_iff child_1_iff bit_clear_iff bit_set_iff)
  then show ?thesis
    unfolding members_def assms e by auto
qed

lemma div_mono_le:
  fixes x y c :: nat
  assumes "x \<le> y"
  shows "x div c \<le> y div c"
  using assms by (rule div_le_mono)

lemma found_node:
  assumes "good rv w" and "x < 2 ^ w" and "K \<le> w"
    and "members rv w K (x div 2 ^ (w - K)) \<noteq> {}"
    and "K < w \<Longrightarrow> members rv w (Suc K) (x div 2 ^ (w - Suc K)) = {}"
  shows "(\<exists>i < length rv. rv ! i = x \<and> node_at rv w K (x div 2 ^ (w - K)) = Leaf i) \<or>
    (\<exists>l < length rv. node_at rv w K (x div 2 ^ (w - K)) = Split (Some l) None \<and>
        rv ! l < x \<and> (\<forall>i. l < i \<and> i < length rv \<longrightarrow> x < rv ! i)) \<or>
    (\<exists>r < length rv. node_at rv w K (x div 2 ^ (w - K)) = Split None (Some r) \<and>
        x < rv ! r \<and> (\<forall>i < r. rv ! i < x))"
proof (cases "K = w")
  case True
  define M where "M = members rv w w x"
  from assms(4) True have ne: "M \<noteq> {}"
    by (simp add: M_def)
  have "Max M \<in> M"
    using ne by (intro Max_in) (simp_all add: M_def)
  then have "Max M < length rv" "rv ! Max M = x"
    by (simp_all add: M_def members_def)
  moreover have "node_at rv w K (x div 2 ^ (w - K)) = Leaf (Max M)"
    by (simp add: True node_at_def M_def)
  ultimately show ?thesis
    by blast
next
  case False
  with assms(3) have less: "K < w"
    by simp
  define e where "e = w - Suc K"
  from less have e: "w - K = Suc e" "w - Suc K = e"
    by (simp_all add: e_def)
  define q where "q = x div 2 ^ Suc e"
  define M0 where "M0 = members rv w (Suc K) (2 * q)"
  define M1 where "M1 = members rv w (Suc K) (2 * q + 1)"
  define M where "M = members rv w K q"
  have union: "M = M0 \<union> M1"
    unfolding M_def M0_def M1_def using e(1) by (rule members_split)
  from assms(4) have ne: "M \<noteq> {}"
    by (simp add: M_def q_def e(1))
  from assms(5) [OF less] have child: "members rv w (Suc K) (x div 2 ^ e) = {}"
    by (simp only: e(2))
  have node: "node_at rv w K (x div 2 ^ (w - K))
      = Split (if M0 = {} then None else Some (Max M0)) (if M1 = {} then None else Some (Min M1))"
    using False by (simp add: node_at_def e(1) q_def M0_def M1_def)
  have inM: "i \<in> M \<longleftrightarrow> i < length rv \<and> rv ! i div 2 ^ Suc e = q" for i
    by (simp add: M_def members_def e(1))
  have xq: "x div 2 ^ Suc e = q"
    by (simp add: q_def)
  from bit_cases [of "x div 2 ^ e"] show ?thesis
  proof
    assume "x div 2 ^ e mod 2 = 1"
    then have bit: "x div 2 ^ e = 2 * q + 1"
      using xq by (simp only: child_1_iff bit_set_iff)
    with child have "M1 = {}"
      by (simp add: M1_def)
    with union ne have M0: "M0 = M" "M0 \<noteq> {}"
      by simp_all
    define l where "l = Max M0"
    have "l \<in> M0"
      unfolding l_def using M0(2) by (intro Max_in) (simp_all add: M0_def)
    then have l: "l < length rv" "rv ! l div 2 ^ e = 2 * q"
      by (simp_all add: M0_def members_def e(2))
    from l(2) bit have "rv ! l div 2 ^ e < x div 2 ^ e"
      by simp
    then have lx: "rv ! l < x"
      by (rule div_less_imp_less)
    have above: "x < rv ! i" if "l < i" "i < length rv" for i
    proof (rule ccontr)
      assume "\<not> x < rv ! i"
      then have le: "rv ! i \<le> x"
        by simp
      from good_less [OF assms(1) that] have "rv ! l \<le> rv ! i"
        by simp
      then have "rv ! l div 2 ^ Suc e \<le> rv ! i div 2 ^ Suc e"
        by (rule div_le_mono)
      moreover from le have "rv ! i div 2 ^ Suc e \<le> x div 2 ^ Suc e"
        by (rule div_le_mono)
      moreover from \<open>l \<in> M0\<close> have "rv ! l div 2 ^ Suc e = q"
        by (simp add: M0(1) inM)
      ultimately have "rv ! i div 2 ^ Suc e = q"
        using xq by simp
      with that(2) have "i \<in> M0"
        by (simp add: M0(1) inM)
      then have "i \<le> l"
        unfolding l_def by (intro Max_ge) (simp_all add: M0_def)
      with that(1) show False
        by simp
    qed
    from node \<open>M1 = {}\<close> M0(2) have "node_at rv w K (x div 2 ^ (w - K)) = Split (Some l) None"
      by (simp add: l_def)
    with l(1) lx above show ?thesis
      by blast
  next
    assume "x div 2 ^ e mod 2 = 0"
    then have bit: "x div 2 ^ e = 2 * q"
      using xq by (simp only: child_0_iff bit_clear_iff)
    with child have "M0 = {}"
      by (simp add: M0_def)
    with union ne have M1: "M1 = M" "M1 \<noteq> {}"
      by simp_all
    define r where "r = Min M1"
    have "r \<in> M1"
      unfolding r_def using M1(2) by (intro Min_in) (simp_all add: M1_def)
    then have r: "r < length rv" "rv ! r div 2 ^ e = 2 * q + 1"
      by (simp_all add: M1_def members_def e(2))
    from r(2) bit have "x div 2 ^ e < rv ! r div 2 ^ e"
      by simp
    then have xr: "x < rv ! r"
      by (rule div_less_imp_less)
    have under: "rv ! i < x" if "i < r" for i
    proof (rule ccontr)
      assume "\<not> rv ! i < x"
      then have le: "x \<le> rv ! i"
        by simp
      from that r(1) have i: "i < length rv"
        by simp
      from good_less [OF assms(1) that r(1)] have "rv ! i \<le> rv ! r"
        by simp
      then have "rv ! i div 2 ^ Suc e \<le> rv ! r div 2 ^ Suc e"
        by (rule div_le_mono)
      moreover from le have "x div 2 ^ Suc e \<le> rv ! i div 2 ^ Suc e"
        by (rule div_le_mono)
      moreover from \<open>r \<in> M1\<close> have "rv ! r div 2 ^ Suc e = q"
        by (simp add: M1(1) inM)
      ultimately have "rv ! i div 2 ^ Suc e = q"
        using xq by simp
      with i have "i \<in> M1"
        by (simp add: M1(1) inM)
      then have "r \<le> i"
        unfolding r_def by (intro Min_le) (simp_all add: M1_def)
      with that show False
        by simp
    qed
    from node \<open>M0 = {}\<close> M1(2) have "node_at rv w K (x div 2 ^ (w - K)) = Split None (Some r)"
      by (simp add: r_def)
    with r(1) xr under show ?thesis
      by blast
  qed
qed

subsection \<open>Keys and blocks\<close>

lemma BST_getPredecessor_eq:
  "BST_getPredecessor tree lb limit =
     (if \<exists>k \<in> set tree. k \<le> limit then Max {k \<in> set tree. k \<le> limit} else lb)"
proof (cases "filter (\<lambda>k. k \<le> limit) tree")
  case Nil
  then have "\<not> (\<exists>k \<in> set tree. k \<le> limit)"
    by (simp add: filter_empty_conv)
  with Nil show ?thesis
    by (simp add: BST_getPredecessor_def)
next
  case (Cons k ks)
  have "set (filter (\<lambda>k. k \<le> limit) tree) = {k \<in> set tree. k \<le> limit}"
    by simp
  then have set: "{k \<in> set tree. k \<le> limit} = set (k # ks)"
    by (simp only: Cons)
  then have "\<exists>k \<in> set tree. k \<le> limit"
    by auto
  moreover have "fold max ks k = Max (set (k # ks))"
    by (rule Max.set_eq_fold [symmetric])
  ultimately show ?thesis
    by (simp add: BST_getPredecessor_def Cons set)
qed

lemma block_last_index:
  assumes "0 < d" and "j < (length vs + d - 1) div d"
  obtains m where "j * d \<le> m" and "m < length vs" and "m < (j + 1) * d"
    and "last (block d vs j) = vs ! m"
    and "(j + 1) * d \<le> length vs \<Longrightarrow> m = (j + 1) * d - 1"
proof -
  define m where "m = min ((j + 1) * d) (length vs) - 1"
  from below_ceil [OF assms] have here: "j * d < length vs" .
  define a where "a = j * d"
  have eq: "(j + 1) * d = a + d"
    by (simp add: a_def)
  from here assms(1) have "a \<le> min (a + d) (length vs) - 1" "min (a + d) (length vs) - 1 < length vs"
    "min (a + d) (length vs) - 1 < a + d"
    unfolding a_def [symmetric] by arith+
  then have "j * d \<le> m" "m < length vs" "m < (j + 1) * d"
    unfolding m_def eq by (simp_all add: a_def)
  moreover have "last (block d vs j) = vs ! m"
    unfolding m_def using assms by (rule last_block)
  moreover have "m = (j + 1) * d - 1" if "(j + 1) * d \<le> length vs"
    using that by (simp add: m_def min_absorb1)
  ultimately show ?thesis
    by (rule that)
qed

lemma block_member_index:
  assumes "k \<in> set (block d vs j)"
  obtains m where "j * d \<le> m" and "m < length vs" and "m < (j + 1) * d" and "k = vs ! m"
proof -
  from assms obtain t where t: "t < length (block d vs j)" "k = block d vs j ! t"
    by (auto simp: in_set_conv_nth)
  from t(1) have "t < d" "t < length vs - j * d"
    by (simp_all add: block_def)
  then have "t < d" "j * d + t < length vs"
    by arith+
  moreover from this t(2) have "k = vs ! (j * d + t)"
    by (simp add: block_def)
  ultimately show ?thesis
    by (intro that [of "j * d + t"]) simp_all
qed

lemma block_bounds:
  assumes "sorted_wrt (<) vs" and "0 < d" and "j < (length vs + d - 1) div d"
    and "k \<in> set (block d vs j)"
  shows "k \<le> last (block d vs j)" and "0 < j \<Longrightarrow> last (block d vs (j - 1)) < k"
proof -
  from assms(1) have s: "sorted vs"
    by (rule strict_sorted_imp_sorted)
  from block_nonempty [OF assms(2,3)] assms(4) last_is_Max [OF sorted_block [OF s, of d j]]
  show "k \<le> last (block d vs j)"
    by simp
  assume j: "0 < j"
  obtain m where m: "j * d \<le> m" "m < length vs" "k = vs ! m"
    using assms(4) by (rule block_member_index)
  from j assms(3) have before: "j - 1 < (length vs + d - 1) div d"
    by simp
  from below_ceil [OF assms(2,3)] j have full: "(j - 1 + 1) * d \<le> length vs"
    by simp
  obtain m' where m': "last (block d vs (j - 1)) = vs ! m'" "m' = (j - 1 + 1) * d - 1"
    using block_last_index [OF assms(2) before] full by metis
  define a where "a = j * d"
  from j assms(2) have "0 < a"
    by (simp add: a_def)
  moreover from m'(2) j have "m' = a - 1"
    by (simp add: a_def)
  moreover from m(1) have "a \<le> m"
    by (simp add: a_def)
  ultimately have "m' < m"
    by arith
  with assms(1) m(2) show "last (block d vs (j - 1)) < k"
    unfolding m(3) m'(1) by (simp add: sorted_wrt_nth_less)
qed

lemma block_last_less:
  assumes "sorted_wrt (<) vs" and "0 < d" and "i < j" and "j < (length vs + d - 1) div d"
  shows "last (block d vs i) < last (block d vs j)"
proof -
  from assms(3,4) have i: "i < (length vs + d - 1) div d"
    by simp
  obtain m where m: "m < (i + 1) * d" "last (block d vs i) = vs ! m"
    using block_last_index [OF assms(2) i] by metis
  obtain m' where m': "j * d \<le> m'" "m' < length vs" "last (block d vs j) = vs ! m'"
    using block_last_index [OF assms(2,4)] by metis
  from assms(3) have "(i + 1) * d \<le> j * d"
    by (intro mult_le_mono1) simp
  with m(1) m'(1) have "m < m'"
    by simp
  with assms(1) m'(2) show ?thesis
    unfolding m(2) m'(3) by (simp add: sorted_wrt_nth_less)
qed

lemma values_cover:
  assumes "0 < d" and "k \<in> set vs"
  obtains i where "i < (length vs + d - 1) div d" and "k \<in> set (block d vs i)"
proof -
  define c where "c = (length vs + d - 1) div d"
  have "concat (map (block d vs) [0..<c]) = vs"
    using ceil_times [OF assms(1), of "length vs"] by (simp add: concat_blocks c_def)
  with assms(2) have "k \<in> set (concat (map (block d vs) [0..<c]))"
    by simp
  then obtain i where "i < c" "k \<in> set (block d vs i)"
    by auto
  then show ?thesis
    unfolding c_def by (rule that)
qed

lemma last_block_is_last:
  assumes "0 < d" and "vs \<noteq> []" and "c = (length vs + d - 1) div d"
  shows "0 < c" and "last (block d vs (c - 1)) = last vs"
proof -
  have "length vs \<le> c * d"
    unfolding assms(3) using assms(1) by (rule ceil_times)
  with assms(2) show c: "0 < c"
    by (cases "c = 0") simp_all
  then have "c - 1 < (length vs + d - 1) div d"
    by (simp add: assms(3))
  from last_block [OF assms(1) this] c \<open>length vs \<le> c * d\<close> assms(2)
  show "last (block d vs (c - 1)) = last vs"
    by (simp add: min_absorb2 last_conv_nth)
qed

subsection \<open>The predecessor among all keys\<close>

lemma largest_key_eqI:
  fixes vs :: "nat list"
  assumes "p \<in> set vs" and "p \<le> limit" and "\<And>k. k \<in> set vs \<Longrightarrow> k \<le> limit \<Longrightarrow> k \<le> p"
  shows "(if \<exists>k \<in> set vs. k \<le> limit then Max {k \<in> set vs. k \<le> limit} else 0) = p"
proof -
  have "Max {k \<in> set vs. k \<le> limit} = p"
    using assms by (intro Max_eqI) simp_all
  with assms(1,2) show ?thesis
    by auto
qed

lemma no_key_eqI:
  fixes vs :: "nat list"
  assumes "\<And>k. k \<in> set vs \<Longrightarrow> limit < k"
  shows "(if \<exists>k \<in> set vs. k \<le> limit then Max {k \<in> set vs. k \<le> limit} else 0) = 0"
  using assms by (auto simp: not_le [symmetric] simp del: not_le)

lemma block_last_le:
  assumes "sorted_wrt (<) vs" and "0 < d" and "i \<le> j" and "j < (length vs + d - 1) div d"
  shows "last (block d vs i) \<le> last (block d vs j)"
proof (cases "i = j")
  case True
  then show ?thesis by simp
next
  case False
  with assms(3) have "i < j"
    by simp
  from block_last_less [OF assms(1,2) this assms(4)] show ?thesis
    by simp
qed

lemma predecessor_in_block:
  assumes "sorted_wrt (<) vs" and "0 < d" and "j < (length vs + d - 1) div d"
    and "limit < last (block d vs j)"
    and "0 < j \<Longrightarrow> last (block d vs (j - 1)) \<le> limit"
  shows "BST_getPredecessor (block d vs j) (if j = 0 then 0 else last (block d vs (j - 1))) limit
    = (if \<exists>k \<in> set vs. k \<le> limit then Max {k \<in> set vs. k \<le> limit} else 0)"
proof -
  define c where "c = (length vs + d - 1) div d"
  define B where "B = {k \<in> set (block d vs j). k \<le> limit}"
  have j: "j < c"
    using assms(3) by (simp add: c_def)
  have later: "limit < k" if "k \<in> set (block d vs i)" "j < i" "i < c" for i k
  proof -
    from that(2,3) have "last (block d vs j) \<le> last (block d vs (i - 1))"
      by (intro block_last_le [OF assms(1,2)]) (simp_all add: c_def)
    also have "\<dots> < k"
      using that by (intro block_bounds(2) [OF assms(1,2)]) (simp_all add: c_def)
    finally show ?thesis
      using assms(4) by simp
  qed
  have earlier: "k \<le> last (block d vs (j - 1))" if "k \<in> set (block d vs i)" "i < j" for i k
  proof -
    from that(2) j have i: "i < (length vs + d - 1) div d"
      by (simp add: c_def)
    have "k \<le> last (block d vs i)"
      using assms(1,2) i that(1) by (rule block_bounds(1))
    also have "\<dots> \<le> last (block d vs (j - 1))"
      using that(2) j by (intro block_last_le [OF assms(1,2)]) (simp_all add: c_def)
    finally show ?thesis .
  qed
  have fin: "finite B"
    by (simp add: B_def)
  show ?thesis
  proof (cases "B = {}")
    case False
    define p where "p = Max B"
    from Max_in [OF fin False] have p: "p \<in> set (block d vs j)" "p \<le> limit"
      by (simp_all add: p_def B_def)
    from False have "BST_getPredecessor (block d vs j) (if j = 0 then 0 else last (block d vs (j - 1))) limit
        = p"
      unfolding BST_getPredecessor_eq p_def B_def by auto
    moreover have "(if \<exists>k \<in> set vs. k \<le> limit then Max {k \<in> set vs. k \<le> limit} else 0) = p"
    proof (rule largest_key_eqI)
      from p(1) show "p \<in> set vs"
        unfolding block_def by (meson in_set_dropD in_set_takeD)
      show "p \<le> limit"
        by (rule p(2))
      fix k assume k: "k \<in> set vs" "k \<le> limit"
      obtain i where i: "i < c" "k \<in> set (block d vs i)"
        using values_cover [OF assms(2) k(1)] unfolding c_def by blast
      consider "i < j" | "i = j" | "j < i"
        by linarith
      then show "k \<le> p"
      proof cases
        case 1
        with earlier [OF i(2)] have "k \<le> last (block d vs (j - 1))"
          by simp
        also from 1 have "\<dots> < p"
          using block_bounds(2) [OF assms(1,2,3) p(1)] by simp
        finally show ?thesis
          by simp
      next
        case 2
        with i(2) k(2) have "k \<in> B"
          by (simp add: B_def)
        then show ?thesis
          unfolding p_def using fin by (intro Max_ge)
      next
        case 3
        from later [OF i(2) 3 i(1)] k(2) show ?thesis
          by simp
      qed
    qed
    ultimately show ?thesis
      by simp
  next
    case True
    then have none: "limit < k" if "k \<in> set (block d vs j)" for k
      using that by (auto simp: B_def not_le [symmetric] simp del: not_le)
    from True have result: "BST_getPredecessor (block d vs j) lb limit = lb" for lb
      unfolding BST_getPredecessor_eq B_def by auto
    show ?thesis
    proof (cases "j = 0")
      case zero: True
      have "(if \<exists>k \<in> set vs. k \<le> limit then Max {k \<in> set vs. k \<le> limit} else 0) = 0"
      proof (rule no_key_eqI)
        fix k assume "k \<in> set vs"
        then obtain i where i: "i < c" "k \<in> set (block d vs i)"
          using values_cover [OF assms(2)] unfolding c_def by blast
        show "limit < k"
        proof (cases "i = j")
          case True
          with i(2) show ?thesis
            by (simp add: none)
        next
          case False
          with zero have "j < i"
            by simp
          with i show ?thesis
            by (intro later)
        qed
      qed
      with zero result [of 0] show ?thesis
        by simp
    next
      case pos: False
      define lb where "lb = last (block d vs (j - 1))"
      from pos j have before: "j - 1 < (length vs + d - 1) div d"
        by (simp add: c_def)
      have "(if \<exists>k \<in> set vs. k \<le> limit then Max {k \<in> set vs. k \<le> limit} else 0) = lb"
      proof (rule largest_key_eqI)
        from block_nonempty [OF assms(2) before] have "lb \<in> set (block d vs (j - 1))"
          by (simp add: lb_def)
        then show "lb \<in> set vs"
          unfolding block_def by (meson in_set_dropD in_set_takeD)
        from pos show "lb \<le> limit"
          unfolding lb_def by (intro assms(5)) simp
        fix k assume k: "k \<in> set vs" "k \<le> limit"
        obtain i where i: "i < c" "k \<in> set (block d vs i)"
          using values_cover [OF assms(2) k(1)] unfolding c_def by blast
        consider "i < j" | "i = j" | "j < i"
          by linarith
        then show "k \<le> lb"
        proof cases
          case 1
          with earlier [OF i(2)] show ?thesis
            by (simp add: lb_def)
        next
          case 2
          with none [of k] i(2) k(2) show ?thesis
            by simp
        next
          case 3
          from later [OF i(2) 3 i(1)] k(2) show ?thesis
            by simp
        qed
      qed
      with pos show ?thesis
        by (simp add: result lb_def)
    qed
  qed
qed

lemma predecessor_after_last:
  fixes vs :: "nat list"
  assumes "sorted_wrt (<) vs" and "vs \<noteq> []" and "last vs \<le> limit"
  shows "(if \<exists>k \<in> set vs. k \<le> limit then Max {k \<in> set vs. k \<le> limit} else 0) = last vs"
proof (rule largest_key_eqI)
  from assms(2) show "last vs \<in> set vs"
    by simp
  show "last vs \<le> limit"
    by (rule assms(3))
  from assms(1) have s: "sorted vs"
    by (rule strict_sorted_imp_sorted)
  fix k assume "k \<in> set vs"
  then show "k \<le> last vs"
    using last_is_Max [OF s assms(2)] by simp
qed

lemma predecessor_is_limit:
  fixes vs :: "nat list"
  assumes "limit \<in> set vs"
  shows "(if \<exists>k \<in> set vs. k \<le> limit then Max {k \<in> set vs. k \<le> limit} else 0) = limit"
  using assms by (intro largest_key_eqI) simp_all

subsection \<open>The result of \<open>getPredecessor\<close>\<close>

lemma prefix_less:
  fixes x :: nat
  assumes "x < 2 ^ w" and "m \<le> w"
  shows "x div 2 ^ (w - m) < 2 ^ m"
proof -
  from assms(2) have "(2::nat) ^ w = 2 ^ m * 2 ^ (w - m)"
    by (simp flip: power_add)
  with assms(1) show ?thesis
    by (intro less_mult_imp_div_less) simp
qed

text \<open>
  C1, amended. Take strictly ascending 64-bit keys for which the constructor succeeds, and
  a limit below \<open>2 ^ (depth_ + 1)\<close>, so that the \<open>depth_ + 1\<close> binary digits which steer the
  search are all the digits of the limit. Then \<open>getPredecessor\<close> returns the largest key
  that is at most the limit, as a signed 64-bit number, and the number 0 when no key is
  at most the limit.
\<close>

theorem getPredecessor_returns_predecessor:
  assumes "sorted_wrt (<) values" and "last values < 2 ^ 64"
    and "new_YTrie values = Inr t" and "limit < 2 ^ (nat (m_depth t) + 1)"
  shows "fst (getPredecessor t limit) =
     Inr (to_int64 (if \<exists>k \<in> set values. k \<le> limit
                    then Max {k \<in> set values. k \<le> limit} else 0))"
proof -
  define P where "P = (if \<exists>k \<in> set values. k \<le> limit
                    then Max {k \<in> set values. k \<le> limit} else 0)"
  define d where "d = nat (m_depth t)"
  define c where "c = (length values + d - 1) div d"
  define rv where "rv = map getValue (m_representatives t)"
  define w where "w = d + 1"
  define N where "N m = node_at rv w m (limit div 2 ^ (w - m))" for m
  obtain st where depth: "calcDepth values = Inr (m_depth t)"
    and split: "split values (m_depth t) = Inr (m_representatives t)"
    and build: "build values (m_depth t) (m_representatives t) = Inr st"
    and table: "m_lookup t = lookup st"
    by (rule new_YTrie_Inr [OF assms(3)])
  from calcDepth_Inr [OF depth] have ne: "values \<noteq> []" and d0: "0 \<le> m_depth t"
    by simp_all
  from split_Inr [OF d0 ne split] have d: "0 < d" and reps: "m_representatives t = chain d values c"
    by (simp_all add: d_def c_def)
  from build d0 have d63: "m_depth t \<le> 63"
    by (rule build_depth)
  from good_representatives [OF assms(1) depth split assms(2)]
  have good: "good rv w" and "m_representatives t \<noteq> []"
    by (simp_all add: rv_def w_def d_def)
  then have rvne: "rv \<noteq> []"
    by (simp add: rv_def)
  have len: "length rv = c"
    by (simp add: rv_def reps)
  have val: "rv ! i = last (block d values i)" if "i < c" for i
    using that by (simp add: rv_def reps linked_def)
  have limit: "limit < 2 ^ w"
    using assms(4) by (simp add: w_def d_def)
  obtain K where K: "K \<le> w"
    and present: "\<And>m. m \<le> w \<Longrightarrow> members rv w m (limit div 2 ^ (w - m)) \<noteq> {} \<longleftrightarrow> m \<le> K"
  proof (rule longest_prefix [OF good rvne limit])
    fix K' assume "K' \<le> w"
      and "\<And>m. m \<le> w \<Longrightarrow> members rv w m (limit div 2 ^ (w - m)) \<noteq> {} \<longleftrightarrow> m \<le> K'"
    then show thesis
      by (rule that)
  qed
  have entries: "m_lookup t (take m (to_string w limit)) = (if m \<le> K then Some (N m) else None)"
    if "m \<le> w" for m
  proof -
    have "m_lookup t (take m (to_string w limit)) = lookup st (to_string m (limit div 2 ^ (w - m)))"
      by (simp only: table take_to_string [OF that])
    also have "\<dots> = entry_at rv w m (limit div 2 ^ (w - m))"
      unfolding rv_def w_def d_def
      using assms(1,2) depth split build
    proof (rule built_table)
      from that show "m \<le> nat (m_depth t) + 1"
        by (simp add: w_def d_def)
      from prefix_less [OF limit that]
      show "limit div 2 ^ (nat (m_depth t) + 1 - m) < 2 ^ m"
        by (simp add: w_def d_def)
    qed
    also have "\<dots> = (if m \<le> K then Some (N m) else None)"
      using present [OF that] by (auto simp add: entry_at_def N_def)
    finally show ?thesis .
  qed
  have "locate t limit = Inr (N K, t)"
    using d0 d63 _ entries K
  proof (rule locate_finds)
    show "w = nat (m_depth t) + 1"
      by (simp add: w_def d_def)
  qed
  then have result: "fst (getPredecessor t limit) = answer t (N K) limit"
    by (simp add: getPredecessor_def)
  have deref: "deref t i = Inr (linked d values c i)" if "i < c" for i
    using that by (simp add: deref_def reps)
  have noChild: "members rv w (Suc K) (limit div 2 ^ (w - Suc K)) = {}" if "K < w"
    using present [of "Suc K"] that by simp
  from present [OF K] have here: "members rv w K (limit div 2 ^ (w - K)) \<noteq> {}"
    by simp
  from found_node [OF good limit K here noChild]
  consider i where "i < c" "rv ! i = limit" "N K = Leaf i"
    | l where "l < c" "N K = Split (Some l) None" "rv ! l < limit"
        "\<And>i. l < i \<Longrightarrow> i < c \<Longrightarrow> limit < rv ! i"
    | r where "r < c" "N K = Split None (Some r)" "limit < rv ! r"
        "\<And>i. i < r \<Longrightarrow> rv ! i < limit"
    unfolding len N_def by blast
  then have "answer t (N K) limit = Inr (to_int64 P)"
  proof cases
    case 1
    from block_nonempty [OF d, of i "values"] 1(1)
    have "last (block d values i) \<in> set (block d values i)"
      by (simp add: c_def)
    then have "last (block d values i) \<in> set values"
      unfolding block_def by (meson in_set_dropD in_set_takeD)
    with 1(1,2) have "limit \<in> set values"
      by (simp add: val)
    then have "P = limit"
      unfolding P_def by (rule predecessor_is_limit)
    with 1 show ?thesis
      by (simp add: answer_def deref linked_def val [symmetric])
  next
    case 2
    show ?thesis
    proof (cases "l + 1 < c")
      case True
      have "BST_getPredecessor (block d values (l + 1))
          (if l + 1 = 0 then 0 else last (block d values (l + 1 - 1))) limit = P"
        unfolding P_def using assms(1) d
      proof (rule predecessor_in_block)
        show "l + 1 < (length values + d - 1) div d"
          using True by (simp add: c_def)
        from 2(4) [of "l + 1"] True show "limit < last (block d values (l + 1))"
          by (simp add: val)
        from 2(1,3) show "last (block d values (l + 1 - 1)) \<le> limit"
          by (simp add: val)
      qed
      then have "BST_getPredecessor (block d values (l + 1)) (last (block d values l)) limit = P"
        by simp
      with 2(1,2) True show ?thesis
        by (simp add: answer_def deref linked_def)
    next
      case False
      with 2(1) have l: "l = c - 1"
        by simp
      from last_block_is_last [OF d ne c_def] have "last (block d values l) = last values"
        by (simp add: l)
      with 2(1,3) have "last values \<le> limit"
        by (simp add: val)
      with assms(1) ne have "P = last values"
        unfolding P_def by (rule predecessor_after_last)
      with 2(1,2) False \<open>last (block d values l) = last values\<close> show ?thesis
        by (simp add: answer_def deref linked_def)
    qed
  next
    case 3
    have "BST_getPredecessor (block d values r)
        (if r = 0 then 0 else last (block d values (r - 1))) limit = P"
      unfolding P_def using assms(1) d
    proof (rule predecessor_in_block)
      show "r < (length values + d - 1) div d"
        using 3(1) by (simp add: c_def)
      from 3(1,3) show "limit < last (block d values r)"
        by (simp add: val)
      assume "0 < r"
      with 3(4) [of "r - 1"] 3(1) show "last (block d values (r - 1)) \<le> limit"
        by (simp add: val)
    qed
    with 3(1,2) show ?thesis
      by (cases "r = 0") (simp_all add: answer_def deref linked_def)
  qed
  with result show ?thesis
    by (simp add: P_def)
qed

theorem getPredecessor_returns_predecessor_witness:
  "sorted_wrt (<) scenario_keys \<and> last scenario_keys < 2 ^ 64 \<and>
   new_YTrie scenario_keys = Inr scenario \<and> (34::nat) < 2 ^ (nat (m_depth scenario) + 1) \<and>
   fst (getPredecessor scenario 34) =
     Inr (to_int64 (if \<exists>k \<in> set scenario_keys. k \<le> 34
                    then Max {k \<in> set scenario_keys. k \<le> 34} else 0))"
proof -
  have keys: "sorted_wrt (<) scenario_keys" "last scenario_keys < 2 ^ 64"
    by (simp_all add: scenario_keys_def)
  have limit: "(34::nat) < 2 ^ (nat (m_depth scenario) + 1)"
    by (simp add: scenario_def)
  from getPredecessor_returns_predecessor [OF keys scenario_built limit] keys limit
  show ?thesis
    by (simp only: scenario_built simp_thms)
qed

end
